theory Spec2Isabelle
  imports Main "HOL-Library.AList" "HOL-Library.Char_ord" "HOL-Library.List_Lexorder"
    "HOL-Library.Multiset"
begin

section \<open>JavaScript values and the object heap\<close>

text \<open>
  The table of \<^verbatim>\<open>src/bigcode.ts\<close> stores and returns JavaScript objects, and what it
  promises depends on which objects are shared. Values are therefore primitives or
  references into an explicit heap of objects; an address is an index of the heap.

  Numbers are the integers that a double holds exactly (NaN, the infinities, fractions
  and the negative zero are outside the model), so that strict equality \<^verbatim>\<open>===\<close> is
  equality of values: on references it is identity. Strings are lists of characters.
  \<open>JBuiltin n\<close> is the object of the runtime that \<^verbatim>\<open>Object.prototype\<close> holds under
  the name \<open>n\<close>, which every plain object inherits: a function, except for
  \<^verbatim>\<open>__proto__\<close>, which is \<^verbatim>\<open>Object.prototype\<close> itself.
\<close>

type_synonym addr = nat

datatype jsval =
    JUndefined
  | JNull
  | JBool bool
  | JNum int
  | JStr string
  | JRef addr
  | JBuiltin string

text \<open>
  An object is a plain object with its own enumerable properties in insertion order
  (no property name twice), an array, or a \<^verbatim>\<open>Date\<close>, which carries the ISO string that
  \<^verbatim>\<open>toJSON\<close> gives. Getters, user-written \<^verbatim>\<open>toJSON\<close> methods and prototypes other
  than \<^verbatim>\<open>Object.prototype\<close> are outside the model.
\<close>

type_synonym props = "(string \<times> jsval) list"

datatype jsobj =
    JObject props
  | JArray "jsval list"
  | JDate string

type_synonym heap = "jsobj list"

definition heap_get :: "heap \<Rightarrow> addr \<Rightarrow> jsobj option" where
  "heap_get h a = (if a < length h then Some (h ! a) else None)"

datatype error = TypeError | SyntaxError

section \<open>deepClone: JSON.stringify followed by JSON.parse\<close>

datatype json =
    JsonNull
  | JsonBool bool
  | JsonNum int
  | JsonStr string
  | JsonArr "json list"
  | JsonObj "(string \<times> json) list"

text \<open>
  \<^verbatim>\<open>JSON.stringify\<close>: \<open>ser h st v\<close> serialises the value \<open>v\<close> in the heap \<open>h\<close>, where
  \<open>st\<close> is the stack of the objects being serialised. The result \<open>Inr None\<close> is
  JavaScript's \<^verbatim>\<open>undefined\<close>: such a property is left out of an object and becomes
  \<^verbatim>\<open>null\<close> in an array. An object that is on the stack already is a cycle, which
  throws a \<^verbatim>\<open>TypeError\<close>. A function is serialised like \<^verbatim>\<open>undefined\<close>, and
  \<^verbatim>\<open>Object.prototype\<close> has no enumerable property. A reference outside the heap
  cannot occur in a program; it is serialised like \<^verbatim>\<open>undefined\<close>.
\<close>

function ser :: "heap \<Rightarrow> addr list \<Rightarrow> jsval \<Rightarrow> error + json option"
  and ser_props :: "heap \<Rightarrow> addr list \<Rightarrow> props \<Rightarrow> error + (string \<times> json) list"
  and ser_elems :: "heap \<Rightarrow> addr list \<Rightarrow> jsval list \<Rightarrow> error + json list"
where
  "ser h st JUndefined = Inr None"
| "ser h st JNull = Inr (Some JsonNull)"
| "ser h st (JBool b) = Inr (Some (JsonBool b))"
| "ser h st (JNum n) = Inr (Some (JsonNum n))"
| "ser h st (JStr s) = Inr (Some (JsonStr s))"
| "ser h st (JRef a) =
     (if a < length h then
        (case h ! a of
           JDate d \<Rightarrow> Inr (Some (JsonStr d))
         | JObject ps \<Rightarrow>
             (if a \<in> set st then Inl TypeError
              else (case ser_props h (a # st) ps of
                      Inl e \<Rightarrow> Inl e
                    | Inr js \<Rightarrow> Inr (Some (JsonObj js))))
         | JArray vs \<Rightarrow>
             (if a \<in> set st then Inl TypeError
              else (case ser_elems h (a # st) vs of
                      Inl e \<Rightarrow> Inl e
                    | Inr js \<Rightarrow> Inr (Some (JsonArr js)))))
      else Inr None)"
| "ser h st (JBuiltin n) = (if n = ''__proto__'' then Inr (Some (JsonObj [])) else Inr None)"
| "ser_props h st [] = Inr []"
| "ser_props h st (p # ps) =
     (case ser h st (snd p) of
        Inl e \<Rightarrow> Inl e
      | Inr None \<Rightarrow> ser_props h st ps
      | Inr (Some j) \<Rightarrow>
          (case ser_props h st ps of
             Inl e \<Rightarrow> Inl e
           | Inr js \<Rightarrow> Inr ((fst p, j) # js)))"
| "ser_elems h st [] = Inr []"
| "ser_elems h st (v # vs) =
     (case ser h st v of
        Inl e \<Rightarrow> Inl e
      | Inr r \<Rightarrow>
          (case ser_elems h st vs of
             Inl e \<Rightarrow> Inl e
           | Inr js \<Rightarrow> Inr ((case r of None \<Rightarrow> JsonNull | Some j \<Rightarrow> j) # js)))"
  by pat_completeness auto

text \<open>
  Termination: every descent into an object puts one more address of the heap on the
  stack, and the serialisation of a property list works through the list.
\<close>

termination
proof -
  have push: "card ({..<length h} - set st) - Suc 0 < card ({..<length h} - set st)"
    if "a < length h" "a \<notin> set st" for h :: heap and st a
  proof -
    from that have "a \<in> {..<length h} - set st" by simp
    then have "0 < card ({..<length h} - set st)"
      by (metis card_gt_0_iff empty_iff finite_Diff finite_lessThan)
    then show ?thesis by simp
  qed
  show ?thesis
    by (relation "measures
          [\<lambda>x. case x of Inl (h, st, v) \<Rightarrow> card ({..<length h} - set st)
                        | Inr (Inl (h, st, ps)) \<Rightarrow> card ({..<length h} - set st)
                        | Inr (Inr (h, st, vs)) \<Rightarrow> card ({..<length h} - set st),
           \<lambda>x. case x of Inl (h, st, v) \<Rightarrow> 0
                        | Inr (Inl (h, st, ps)) \<Rightarrow> Suc (length ps)
                        | Inr (Inr (h, st, vs)) \<Rightarrow> Suc (length vs)]")
       (auto simp: push)
qed

text \<open>
  \<^verbatim>\<open>JSON.parse\<close> builds the value of a JSON text from new objects only: \<open>parse h j\<close>
  appends them to the heap and returns the value.
\<close>

fun parse :: "heap \<Rightarrow> json \<Rightarrow> heap \<times> jsval"
  and parse_props :: "heap \<Rightarrow> (string \<times> json) list \<Rightarrow> heap \<times> props"
  and parse_elems :: "heap \<Rightarrow> json list \<Rightarrow> heap \<times> jsval list"
where
  "parse h JsonNull = (h, JNull)"
| "parse h (JsonBool b) = (h, JBool b)"
| "parse h (JsonNum n) = (h, JNum n)"
| "parse h (JsonStr s) = (h, JStr s)"
| "parse h (JsonArr js) =
     (case parse_elems h js of (h1, vs) \<Rightarrow> (h1 @ [JArray vs], JRef (length h1)))"
| "parse h (JsonObj ps) =
     (case parse_props h ps of (h1, qs) \<Rightarrow> (h1 @ [JObject qs], JRef (length h1)))"
| "parse_props h [] = (h, [])"
| "parse_props h (p # ps) =
     (case parse h (snd p) of (h1, v) \<Rightarrow>
        (case parse_props h1 ps of (h2, qs) \<Rightarrow> (h2, (fst p, v) # qs)))"
| "parse_elems h [] = (h, [])"
| "parse_elems h (j # js) =
     (case parse h j of (h1, v) \<Rightarrow>
        (case parse_elems h1 js of (h2, vs) \<Rightarrow> (h2, v # vs)))"

text \<open>
  \<^verbatim>\<open>deepClone(obj) = JSON.parse(JSON.stringify(obj))\<close>. When \<^verbatim>\<open>JSON.stringify\<close>
  returns \<^verbatim>\<open>undefined\<close>, \<^verbatim>\<open>JSON.parse\<close> throws a \<^verbatim>\<open>SyntaxError\<close>.
\<close>

definition deepClone :: "heap \<Rightarrow> jsval \<Rightarrow> error + (heap \<times> jsval)" where
  "deepClone h obj =
     (case ser h [] obj of
        Inl e \<Rightarrow> Inl e
      | Inr None \<Rightarrow> Inl SyntaxError
      | Inr (Some j) \<Rightarrow> Inr (parse h j))"

section \<open>makeId\<close>

text \<open>
  \<^verbatim>\<open>Number.prototype.toString(radix)\<close> on a natural number, for a radix from 2 to 36.
\<close>

definition digit_char :: "nat \<Rightarrow> char" where
  "digit_char d = ''0123456789abcdefghijklmnopqrstuvwxyz'' ! d"

function toString_radix :: "nat \<Rightarrow> nat \<Rightarrow> string" where
  "toString_radix r n =
     (if r < 2 \<or> n < r then [digit_char n]
      else toString_radix r (n div r) @ [digit_char (n mod r)])"
  by pat_completeness auto
termination
  by (relation "measure snd") auto

text \<open>
  \<^verbatim>\<open>makeId\<close> reads two random numbers and the clock. They are inputs of the model:
  \<open>rand1\<close> and \<open>rand2\<close> are the two values of
  \<^verbatim>\<open>Math.floor((1 + Math.random()) * 0x10000)\<close>, and \<open>clock\<close> is \<^verbatim>\<open>Date.now()\<close>.
\<close>

record env =
  rand1 :: nat
  rand2 :: nat
  clock :: nat

definition rand :: "nat \<Rightarrow> string" where
  "rand x = drop 1 (toString_radix 16 x)"

definition makeId :: "env \<Rightarrow> string \<Rightarrow> string" where
  "makeId e prefix = prefix @ rand (rand1 e) @ rand (rand2 e) @ ''-'' @ toString_radix 36 (clock e)"

section \<open>InMemoryTable\<close>

text \<open>
  The state is the heap together with the table's \<^verbatim>\<open>rows: Map<ID, T>\<close>. The map is
  an association list in insertion order, as a JavaScript \<^verbatim>\<open>Map\<close> iterates; a key is
  any value (the type \<^verbatim>\<open>ID\<close> is erased at run time), and each entry holds the address
  of the stored row object.
\<close>

record table_state =
  mem :: heap
  rows :: "(jsval \<times> addr) list"

text \<open>Reading a property of an object literal: \<^verbatim>\<open>undefined\<close> when it is not there.\<close>

definition get_prop :: "props \<Rightarrow> string \<Rightarrow> jsval" where
  "get_prop ps k = (case map_of ps k of None \<Rightarrow> JUndefined | Some v \<Rightarrow> v)"

text \<open>
  The own properties that a spread \<^verbatim>\<open>{...obj}\<close> copies. The table spreads only plain
  objects that it has created itself.
\<close>

definition own_props :: "heap \<Rightarrow> addr \<Rightarrow> props" where
  "own_props h a = (case heap_get h a of Some (JObject ps) \<Rightarrow> ps | _ \<Rightarrow> [])"

text \<open>
  \<^verbatim>\<open>(row as any)[k]\<close> on a plain object: its own property, or else what it inherits
  from \<^verbatim>\<open>Object.prototype\<close>, or else \<^verbatim>\<open>undefined\<close>. The rows that \<^verbatim>\<open>query\<close> reads
  are clones of stored rows, which are plain objects.
\<close>

definition inherited :: "string list" where
  "inherited =
     [''constructor'', ''__defineGetter__'', ''__defineSetter__'', ''hasOwnProperty'',
      ''__lookupGetter__'', ''__lookupSetter__'', ''isPrototypeOf'', ''propertyIsEnumerable'',
      ''toString'', ''valueOf'', ''__proto__'', ''toLocaleString'']"

definition get_field :: "heap \<Rightarrow> jsval \<Rightarrow> string \<Rightarrow> jsval" where
  "get_field h v k =
     (case v of
        JRef a \<Rightarrow>
          (case map_of (own_props h a) k of
             Some x \<Rightarrow> x
           | None \<Rightarrow> if k \<in> set inherited then JBuiltin k else JUndefined)
      | _ \<Rightarrow> JUndefined)"

text \<open>\<^verbatim>\<open>{ ...a, ...b }\<close>: the properties of \<open>b\<close> are written over those of \<open>a\<close>, in order.\<close>

definition spread :: "props \<Rightarrow> props \<Rightarrow> props" where
  "spread a b = foldl (\<lambda>acc p. AList.update (fst p) (snd p) acc) a b"

definition nullish :: "jsval \<Rightarrow> bool" where
  "nullish v = (v = JUndefined \<or> v = JNull)"

text \<open>
  \<^verbatim>\<open>insert(row)\<close>. The argument is given by the own properties of the row object, which
  is all that \<^verbatim>\<open>row.id\<close> and the spread read of it. The new object \<^verbatim>\<open>toInsert\<close> is
  put into the map before \<^verbatim>\<open>deepClone\<close> runs, so it stays there when the clone throws.
\<close>

definition insert_row :: "table_state \<Rightarrow> env \<Rightarrow> props \<Rightarrow> table_state \<times> (error + jsval)" where
  "insert_row s e row =
     (let ident = (if nullish (get_prop row ''id'') then JStr (makeId e []) else get_prop row ''id'');
          toInsert = AList.update ''id'' ident row;
          a = length (mem s);
          s1 = \<lparr>mem = mem s @ [JObject toInsert], rows = AList.update ident a (rows s)\<rparr>
      in case deepClone (mem s1) (JRef a) of
           Inl err \<Rightarrow> (s1, Inl err)
         | Inr (h, v) \<Rightarrow> (s1\<lparr>mem := h\<rparr>, Inr v))"

definition get :: "table_state \<Rightarrow> jsval \<Rightarrow> table_state \<times> (error + jsval)" where
  "get s ident =
     (case map_of (rows s) ident of
        None \<Rightarrow> (s, Inr JUndefined)
      | Some r \<Rightarrow>
          (case deepClone (mem s) (JRef r) of
             Inl err \<Rightarrow> (s, Inl err)
           | Inr (h, v) \<Rightarrow> (s\<lparr>mem := h\<rparr>, Inr v)))"

definition update :: "table_state \<Rightarrow> jsval \<Rightarrow> props \<Rightarrow> table_state \<times> (error + jsval)" where
  "update s ident patch =
     (case map_of (rows s) ident of
        None \<Rightarrow> (s, Inr JUndefined)
      | Some existing \<Rightarrow>
          (let updated = spread (own_props (mem s) existing) patch;
               a = length (mem s);
               s1 = \<lparr>mem = mem s @ [JObject updated], rows = AList.update ident a (rows s)\<rparr>
           in case deepClone (mem s1) (JRef a) of
                Inl err \<Rightarrow> (s1, Inl err)
              | Inr (h, v) \<Rightarrow> (s1\<lparr>mem := h\<rparr>, Inr v)))"

definition delete :: "table_state \<Rightarrow> jsval \<Rightarrow> table_state \<times> bool" where
  "delete s ident =
     (s\<lparr>rows := AList.delete ident (rows s)\<rparr>, map_of (rows s) ident \<noteq> None)"

definition clear :: "table_state \<Rightarrow> table_state" where
  "clear s = s\<lparr>rows := []\<rparr>"

subsection \<open>query\<close>

datatype sort_order = Asc | Desc

text \<open>
  A value of the filter object, as \<^verbatim>\<open>query\<close> tells them apart: a \<^verbatim>\<open>RegExp\<close> (given by
  what its \<^verbatim>\<open>test\<close> answers on a string; the \<^verbatim>\<open>lastIndex\<close> of a global or sticky
  pattern is outside the model), a function (given by what it returns for the value of the
  field in a heap, \<open>None\<close> when it throws; it changes nothing), or any other value, which
  is not a function.
\<close>

datatype expected =
    EPattern "string \<Rightarrow> bool"
  | EPred "heap \<Rightarrow> jsval \<Rightarrow> jsval option"
  | EPlain jsval

record QueryOptions =
  limit :: "int option"
  offset :: "int option"
  sortBy :: "string option"
  sortOrder :: "sort_order option"
  filter_opt :: "(string \<times> expected) list option"

text \<open>\<^verbatim>\<open>Array.from(this.rows.values()).map((r) => deepClone(r))\<close>\<close>

fun clone_all :: "heap \<Rightarrow> addr list \<Rightarrow> error + (heap \<times> jsval list)" where
  "clone_all h [] = Inr (h, [])"
| "clone_all h (r # rs) =
     (case deepClone h (JRef r) of
        Inl err \<Rightarrow> Inl err
      | Inr (h1, v) \<Rightarrow>
          (case clone_all h1 rs of
             Inl err \<Rightarrow> Inl err
           | Inr (h2, vs) \<Rightarrow> Inr (h2, v # vs)))"

text \<open>What \<^verbatim>\<open>every\<close> makes of the value that its callback returns.\<close>

definition truthy :: "jsval \<Rightarrow> bool" where
  "truthy v = (v \<noteq> JUndefined \<and> v \<noteq> JNull \<and> v \<noteq> JBool False \<and> v \<noteq> JNum 0 \<and> v \<noteq> JStr [])"

text \<open>
  The callback of \<^verbatim>\<open>Object.keys(f).every\<close> for the key \<open>k\<close>. A pattern that meets a value
  which is not a string falls through to \<^verbatim>\<open>actual === expected\<close>, which is false: the
  value comes out of a clone and the pattern is another object.
\<close>

fun matches :: "heap \<Rightarrow> jsval \<Rightarrow> string \<times> expected \<Rightarrow> bool" where
  "matches h row (k, EPattern m) = (case get_field h row k of JStr s \<Rightarrow> m s | _ \<Rightarrow> False)"
| "matches h row (k, EPred p) =
     (case p h (get_field h row k) of None \<Rightarrow> False | Some r \<Rightarrow> truthy r)"
| "matches h row (k, EPlain v) = (get_field h row k = v)"

text \<open>
  \<^verbatim>\<open>aVal > bVal\<close> compares two numbers, or two strings by their characters. On any
  other pair of operands JavaScript converts them first, which may throw; that
  comparison is the parameter \<open>cg\<close> of the model.
\<close>

type_synonym coercing_gt = "heap \<Rightarrow> jsval \<Rightarrow> jsval \<Rightarrow> error + bool"

definition js_gt :: "coercing_gt \<Rightarrow> heap \<Rightarrow> jsval \<Rightarrow> jsval \<Rightarrow> error + bool" where
  "js_gt cg h a b =
     (case a of
        JNum x \<Rightarrow> (case b of JNum y \<Rightarrow> Inr (y < x) | _ \<Rightarrow> cg h a b)
      | JStr s \<Rightarrow> (case b of JStr t \<Rightarrow> Inr (t < s) | _ \<Rightarrow> cg h a b)
      | _ \<Rightarrow> cg h a b)"

text \<open>The comparator that \<^verbatim>\<open>query\<close> passes to \<^verbatim>\<open>arr.sort\<close>.\<close>

definition compare :: "coercing_gt \<Rightarrow> heap \<Rightarrow> string \<Rightarrow> sort_order option \<Rightarrow> jsval \<Rightarrow> jsval \<Rightarrow> error + int" where
  "compare cg h k ord a b =
     (let aVal = get_field h a k; bVal = get_field h b k
      in if aVal = bVal then Inr 0
         else (case js_gt cg h aVal bVal of
                 Inl err \<Rightarrow> Inl err
               | Inr g \<Rightarrow>
                   (let cmp = (if g then 1 else - 1)
                    in Inr (if ord = Some Desc then - cmp else cmp))))"

text \<open>
  \<^verbatim>\<open>Array.prototype.sort\<close> is part of the language, not of the repository. ECMAScript
  requires it to be stable, and fixes its result when the comparator is consistent;
  it is modelled by the stable insertion sort that calls the comparator and stops at
  the first exception.
\<close>

fun insort_cmp :: "('a \<Rightarrow> 'a \<Rightarrow> error + int) \<Rightarrow> 'a \<Rightarrow> 'a list \<Rightarrow> error + 'a list" where
  "insort_cmp c x [] = Inr [x]"
| "insort_cmp c x (y # ys) =
     (case c x y of
        Inl err \<Rightarrow> Inl err
      | Inr r \<Rightarrow>
          (if r \<le> 0 then Inr (x # y # ys)
           else (case insort_cmp c x ys of
                   Inl err \<Rightarrow> Inl err
                 | Inr zs \<Rightarrow> Inr (y # zs))))"

fun sort_cmp :: "('a \<Rightarrow> 'a \<Rightarrow> error + int) \<Rightarrow> 'a list \<Rightarrow> error + 'a list" where
  "sort_cmp c [] = Inr []"
| "sort_cmp c (x # xs) =
     (case sort_cmp c xs of
        Inl err \<Rightarrow> Inl err
      | Inr ys \<Rightarrow> insort_cmp c x ys)"

text \<open>
  \<^verbatim>\<open>Array.prototype.slice(start, end)\<close> on integers: a negative index counts from the
  end of the array, and both are clamped to the array.
\<close>

definition slice :: "'a list \<Rightarrow> int \<Rightarrow> int \<Rightarrow> 'a list" where
  "slice xs start end =
     (let len = int (length xs);
          k = (if start < 0 then max (len + start) 0 else min start len);
          final = (if end < 0 then max (len + end) 0 else min end len)
      in take (nat (final - k)) (drop (nat k) xs))"

text \<open>
  \<^verbatim>\<open>query(opts)\<close>. The result array is a list of references to the clones. An empty
  \<^verbatim>\<open>sortBy\<close> is falsy, so it does not sort. When a clone throws, the clones made before
  it are unreachable, and the state is returned as it was.
\<close>

definition query :: "coercing_gt \<Rightarrow> table_state \<Rightarrow> QueryOptions \<Rightarrow> table_state \<times> (error + jsval list)" where
  "query cg s opts =
     (case clone_all (mem s) (map snd (rows s)) of
        Inl err \<Rightarrow> (s, Inl err)
      | Inr (h, arr) \<Rightarrow>
          (let arr1 = (case filter_opt opts of
                         None \<Rightarrow> arr
                       | Some f \<Rightarrow> filter (\<lambda>row. list_all (matches h row) f) arr)
           in case (case sortBy opts of
                      None \<Rightarrow> Inr arr1
                    | Some k \<Rightarrow>
                        if k = [] then Inr arr1
                        else sort_cmp (compare cg h k (sortOrder opts)) arr1) of
                Inl err \<Rightarrow> (s\<lparr>mem := h\<rparr>, Inl err)
              | Inr arr2 \<Rightarrow>
                  (let off = (case offset opts of None \<Rightarrow> 0 | Some n \<Rightarrow> n);
                       lim = (case limit opts of None \<Rightarrow> int (length arr2) | Some n \<Rightarrow> n)
                   in (s\<lparr>mem := h\<rparr>, Inr (slice arr2 off (off + lim))))))"

section \<open>Notions used in the statements\<close>

text \<open>The number of entries of the map (\<^verbatim>\<open>rows.size\<close>).\<close>

definition size_of :: "table_state \<Rightarrow> nat" where
  "size_of s = length (rows s)"

definition no_options :: QueryOptions where
  "no_options = \<lparr>limit = None, offset = None, sortBy = None, sortOrder = None, filter_opt = None\<rparr>"

definition empty_table :: table_state where
  "empty_table = \<lparr>mem = [], rows = []\<rparr>"

definition sample_env :: env where
  "sample_env = \<lparr>rand1 = 70000, rand2 = 131071, clock = 1000\<rparr>"

definition no_coercion :: coercing_gt where
  "no_coercion h a b = Inr False"

text \<open>
  The scenario of the specification: the records \<^verbatim>\<open>{id:"a", age:30}\<close>,
  \<^verbatim>\<open>{id:"b", age:20}\<close> and \<^verbatim>\<open>{id:"c", age:25}\<close> inserted into an empty table.
\<close>

definition ages :: "env \<Rightarrow> table_state" where
  "ages e =
     fst (insert_row
       (fst (insert_row
         (fst (insert_row empty_table e [(''id'', JStr ''a''), (''age'', JNum 30)]))
         e [(''id'', JStr ''b''), (''age'', JNum 20)]))
       e [(''id'', JStr ''c''), (''age'', JNum 25)])"

text \<open>The identifiers of the records that a query returns, in the order of the result.\<close>

definition ids_of :: "table_state \<times> (error + jsval list) \<Rightarrow> jsval list option" where
  "ids_of r =
     (case snd r of
        Inl err \<Rightarrow> None
      | Inr xs \<Rightarrow> Some (map (\<lambda>x. get_field (mem (fst r)) x ''id'') xs))"

text \<open>The key under which \<^verbatim>\<open>insert\<close> stores a row: \<^verbatim>\<open>row.id ?? makeId()\<close>.\<close>

definition row_ident :: "env \<Rightarrow> props \<Rightarrow> jsval" where
  "row_ident e row = (if nullish (get_prop row ''id'') then JStr (makeId e []) else get_prop row ''id'')"

text \<open>
  The invariant of the specification: the keys of the map are distinct, and every
  stored record carries, as its \<^verbatim>\<open>id\<close>, a non-empty string that is the key it is
  stored under.
\<close>

definition ident_ok :: "jsval \<Rightarrow> bool" where
  "ident_ok k = (case k of JStr s \<Rightarrow> s \<noteq> [] | _ \<Rightarrow> False)"

definition row_ok :: "heap \<Rightarrow> jsval \<times> addr \<Rightarrow> bool" where
  "row_ok h r = (ident_ok (fst r) \<and> get_field h (JRef (snd r)) ''id'' = fst r)"

definition store_inv :: "table_state \<Rightarrow> bool" where
  "store_inv s = (distinct (map fst (rows s)) \<and> list_all (row_ok (mem s)) (rows s))"

text \<open>The operations of the table, and a sequence of them run from a state.\<close>

datatype op =
    Insert env props
  | Get jsval
  | Update jsval props
  | Delete jsval
  | Query QueryOptions
  | Clear

fun exec :: "coercing_gt \<Rightarrow> table_state \<Rightarrow> op \<Rightarrow> table_state" where
  "exec cg s (Insert e row) = fst (insert_row s e row)"
| "exec cg s (Get k) = fst (get s k)"
| "exec cg s (Update k patch) = fst (update s k patch)"
| "exec cg s (Delete k) = fst (delete s k)"
| "exec cg s (Query opts) = fst (query cg s opts)"
| "exec cg s Clear = clear s"

text \<open>
  An operation that keeps to identifiers: an \<^verbatim>\<open>insert\<close> whose explicit identifier, if
  there is one, is a non-empty string, and an \<^verbatim>\<open>update\<close> whose patch does not set
  \<^verbatim>\<open>id\<close> to anything but the key.
\<close>

fun op_ok :: "op \<Rightarrow> bool" where
  "op_ok (Insert e row) = (nullish (get_prop row ''id'') \<or> ident_ok (get_prop row ''id''))"
| "op_ok (Update k patch) = list_all (\<lambda>p. fst p = ''id'' \<longrightarrow> snd p = k) patch"
| "op_ok _ = True"

text \<open>
  The natural ordering of the values of a sort field: numbers by size, strings by
  their characters. It orders two numbers or two strings, and nothing else.
\<close>

definition natural_le :: "jsval \<Rightarrow> jsval \<Rightarrow> bool" where
  "natural_le a b =
     (case a of
        JNum x \<Rightarrow> (case b of JNum y \<Rightarrow> x \<le> y | _ \<Rightarrow> False)
      | JStr s \<Rightarrow> (case b of JStr t \<Rightarrow> s \<le> t | _ \<Rightarrow> False)
      | _ \<Rightarrow> False)"

text \<open>The order that \<^verbatim>\<open>sortOrder\<close> asks for: descending turns the comparison round.\<close>

definition in_order :: "sort_order option \<Rightarrow> jsval \<Rightarrow> jsval \<Rightarrow> bool" where
  "in_order ord a b = (if ord = Some Desc then natural_le b a else natural_le a b)"

text \<open>Sort keys that the natural ordering can compare: all numbers, or all strings.\<close>

definition is_num :: "jsval \<Rightarrow> bool" where
  "is_num v = (case v of JNum x \<Rightarrow> True | _ \<Rightarrow> False)"

definition is_str :: "jsval \<Rightarrow> bool" where
  "is_str v = (case v of JStr x \<Rightarrow> True | _ \<Rightarrow> False)"

definition same_kind :: "jsval list \<Rightarrow> bool" where
  "same_kind vs = (list_all is_num vs \<or> list_all is_str vs)"

text \<open>
  A filter entry whose predicate never throws: where the predicate of \<open>p\<close> throws,
  this one returns \<^verbatim>\<open>false\<close>. And the fact that the predicate of an entry throws on
  the field of a row.
\<close>

definition swallow :: "string \<times> expected \<Rightarrow> string \<times> expected" where
  "swallow p =
     (case snd p of
        EPred q \<Rightarrow> (fst p, EPred (\<lambda>h v. case q h v of None \<Rightarrow> Some (JBool False) | Some r \<Rightarrow> Some r))
      | _ \<Rightarrow> p)"

definition throws_on :: "heap \<Rightarrow> jsval \<Rightarrow> string \<times> expected \<Rightarrow> bool" where
  "throws_on h row p = (case snd p of EPred q \<Rightarrow> q h (get_field h row (fst p)) = None | _ \<Rightarrow> False)"

text \<open>
  \<open>rep h v j\<close>: in the heap \<open>h\<close> the value \<open>v\<close> is the JSON tree \<open>j\<close>. A primitive is
  itself; an array or an object literal is read through its reference, with its
  elements or properties in their order. A value with such a tree holds no
  \<^verbatim>\<open>undefined\<close>, no date, no function and no cycle, and two values with the same tree
  are equal in content.
\<close>

fun rep :: "heap \<Rightarrow> jsval \<Rightarrow> json \<Rightarrow> bool"
  and rep_props :: "heap \<Rightarrow> props \<Rightarrow> (string \<times> json) list \<Rightarrow> bool"
  and rep_elems :: "heap \<Rightarrow> jsval list \<Rightarrow> json list \<Rightarrow> bool"
where
  "rep h v JsonNull = (v = JNull)"
| "rep h v (JsonBool b) = (v = JBool b)"
| "rep h v (JsonNum n) = (v = JNum n)"
| "rep h v (JsonStr s) = (v = JStr s)"
| "rep h v (JsonArr js) =
     (case v of
        JRef a \<Rightarrow> (case heap_get h a of Some (JArray vs) \<Rightarrow> rep_elems h vs js | _ \<Rightarrow> False)
      | _ \<Rightarrow> False)"
| "rep h v (JsonObj ps) =
     (case v of
        JRef a \<Rightarrow> (case heap_get h a of Some (JObject qs) \<Rightarrow> rep_props h qs ps | _ \<Rightarrow> False)
      | _ \<Rightarrow> False)"
| "rep_props h [] [] = True"
| "rep_props h (q # qs) (p # ps) = (fst q = fst p \<and> rep h (snd q) (snd p) \<and> rep_props h qs ps)"
| "rep_props h [] (p # ps) = False"
| "rep_props h (q # qs) [] = False"
| "rep_elems h [] [] = True"
| "rep_elems h (v # vs) (j # js) = (rep h v j \<and> rep_elems h vs js)"
| "rep_elems h [] (j # js) = False"
| "rep_elems h (v # vs) [] = False"



text \<open>
  Where references lead. The heap only grows, so the objects that a call allocates
  are those from the old length on. \<open>val_from n v\<close>: the value \<open>v\<close> refers to no
  object below the address \<open>n\<close>; \<open>val_below n v\<close>: it refers to none from \<open>n\<close> on;
  \<open>obj_from\<close> and \<open>obj_below\<close> say the same of all the values that an object holds.
\<close>

definition val_from :: "nat \<Rightarrow> jsval \<Rightarrow> bool" where
  "val_from n v = (case v of JRef a \<Rightarrow> n \<le> a | _ \<Rightarrow> True)"

definition val_below :: "nat \<Rightarrow> jsval \<Rightarrow> bool" where
  "val_below n v = (case v of JRef a \<Rightarrow> a < n | _ \<Rightarrow> True)"

definition obj_vals :: "jsobj \<Rightarrow> jsval list" where
  "obj_vals obj = (case obj of JObject ps \<Rightarrow> map snd ps | JArray vs \<Rightarrow> vs | JDate d \<Rightarrow> [])"

definition obj_from :: "nat \<Rightarrow> jsobj \<Rightarrow> bool" where
  "obj_from n obj = list_all (val_from n) (obj_vals obj)"

definition obj_below :: "nat \<Rightarrow> jsobj \<Rightarrow> bool" where
  "obj_below n obj = list_all (val_below n) (obj_vals obj)"

definition closed_below :: "nat \<Rightarrow> heap \<Rightarrow> bool" where
  "closed_below n h = (n \<le> length h \<and> list_all (obj_below n) (take n h))"

text \<open>
  A state as JavaScript can have it: every reference, in an object of the heap or in
  the map, leads to an object of the heap. The same for the arguments of an operation.
\<close>

definition heap_ok :: "table_state \<Rightarrow> bool" where
  "heap_ok s = (closed_below (length (mem s)) (mem s)
                \<and> list_all (\<lambda>r. snd r < length (mem s)) (rows s))"

fun args_below :: "nat \<Rightarrow> op \<Rightarrow> bool" where
  "args_below n (Insert e row) = list_all (val_below n) (map snd row)"
| "args_below n (Update k patch) = list_all (val_below n) (map snd patch)"
| "args_below n x = True"




text \<open>
  A table that holds a record with a cycle: \<^verbatim>\<open>o.me = o\<close>, then
  \<^verbatim>\<open>insert({id: "a", self: o})\<close>, which stores the record before \<^verbatim>\<open>deepClone\<close>
  throws.
\<close>

definition knot :: "env \<Rightarrow> table_state" where
  "knot e = fst (insert_row \<lparr>mem = [JObject [(''me'', JRef 0)]], rows = []\<rparr> e
                   [(''id'', JStr ''a''), (''self'', JRef 0)])"

text \<open>
  Two records with a property of the empty name: \<^verbatim>\<open>{id: "a", "": 2}\<close> and
  \<^verbatim>\<open>{id: "b", "": 1}\<close>.
\<close>

definition blanks :: "env \<Rightarrow> table_state" where
  "blanks e =
     fst (insert_row
       (fst (insert_row empty_table e [(''id'', JStr ''a''), ('''', JNum 2)]))
       e [(''id'', JStr ''b''), ('''', JNum 1)])"

text \<open>The values of a field in the records that a query returns, in the order of the result.\<close>

definition field_values :: "string \<Rightarrow> table_state \<times> (error + jsval list) \<Rightarrow> jsval list option" where
  "field_values k r =
     (case snd r of
        Inl err \<Rightarrow> None
      | Inr xs \<Rightarrow> Some (map (\<lambda>x. get_field (mem (fst r)) x k) xs))"


text \<open>A predicate that throws on every value.\<close>

definition always_throws :: "heap \<Rightarrow> jsval \<Rightarrow> jsval option" where
  "always_throws h v = None"

section \<open>Properties\<close>

declare toString_radix.simps [simp del]

subsection \<open>The heap only grows\<close>

lemma parse_prefix:
  "\<exists>ext. fst (parse h j) = h @ ext"
  "\<exists>ext. fst (parse_props h ps) = h @ ext"
  "\<exists>ext. fst (parse_elems h js) = h @ ext"
  by (induction h j and h ps and h js rule: parse_parse_props_parse_elems.induct)
     (auto split: prod.splits)

lemma deepClone_prefix: "deepClone h v = Inr (h1, r) \<Longrightarrow> \<exists>ext. h1 = h @ ext"
  using parse_prefix(1) [of h]
  by (auto simp: deepClone_def split: sum.splits option.splits) (metis fst_conv)

subsection \<open>slice on counts\<close>

lemma slice_count:
  assumes "0 \<le> off" "0 \<le> lim"
  shows "slice xs off (off + lim) = take (nat lim) (drop (nat off) xs)"
proof (cases "off \<le> int (length xs)")
  case True
  with assms show ?thesis
    by (auto simp: slice_def Let_def min_def)
next
  case False
  with assms show ?thesis
    by (auto simp: slice_def Let_def min_def)
qed

lemma slice_all: "0 \<le> off \<Longrightarrow> slice xs off (off + int (length xs)) = drop (nat off) xs"
  by (simp add: slice_count)

lemma slice_whole: "slice xs 0 (int (length xs)) = xs"
  using slice_all [of 0 xs] by simp

subsection \<open>The map\<close>

lemma length_delete_present:
  "distinct (map fst al) \<Longrightarrow> map_of al k = Some v \<Longrightarrow> Suc (length (AList.delete k al)) = length al"
proof (induction al)
  case Nil
  then show ?case by simp
next
  case (Cons p al)
  show ?case
  proof (cases "fst p = k")
    case True
    with Cons.prems have "k \<notin> fst ` set al" by auto
    with True show ?thesis by (cases p) (simp add: AList.delete_id)
  next
    case False
    with Cons show ?thesis by (cases p) auto
  qed
qed

lemma delete_absent: "map_of al k = None \<Longrightarrow> AList.delete k al = al"
  by (simp add: map_of_eq_None_iff)

subsection \<open>The scenario, evaluated\<close>

lemma ages_rows: "rows (ages e) = [(JStr ''a'', 0), (JStr ''b'', 2), (JStr ''c'', 4)]"
  by code_simp

lemma ages_by_age:
  "ids_of (query cg (ages e) (no_options\<lparr>sortBy := Some ''age''\<rparr>))
     = Some [JStr ''b'', JStr ''c'', JStr ''a'']"
  by code_simp

lemma ages_by_age_desc_page:
  "ids_of (query cg (ages e)
       (no_options\<lparr>sortBy := Some ''age'', sortOrder := Some Desc,
          offset := Some 1, limit := Some 1\<rparr>))
     = Some [JStr ''c'']"
  by code_simp

lemma ages_negative_limit:
  "ids_of (query cg (ages e) (no_options\<lparr>limit := Some (- 1)\<rparr>)) = Some [JStr ''a'', JStr ''b'']"
  by code_simp

lemma ages_negative_offset:
  "ids_of (query cg (ages e) (no_options\<lparr>offset := Some (- 1)\<rparr>)) = Some []"
  by code_simp

subsection \<open>delete\<close>

text \<open>
  C10. \<^verbatim>\<open>delete(id)\<close> returns whether the key was there. When it was, the table has
  one entry less afterwards; when it was not, the state is unchanged and nothing is
  thrown. A second \<^verbatim>\<open>delete\<close> of the same key returns false and changes nothing.
  The keys of a \<^verbatim>\<open>Map\<close> are distinct.
\<close>

theorem delete_idempotent:
  assumes "distinct (map fst (rows s))"
  shows "snd (delete s k) = (map_of (rows s) k \<noteq> None)
       \<and> size_of (fst (delete s k)) = size_of s - (if map_of (rows s) k \<noteq> None then 1 else 0)
       \<and> (if map_of (rows s) k \<noteq> None then 0 < size_of s else fst (delete s k) = s)
       \<and> mem (fst (delete s k)) = mem s
       \<and> delete (fst (delete s k)) k = (fst (delete s k), False)"
proof (cases "map_of (rows s) k")
  case None
  then show ?thesis
    by (simp add: delete_def size_of_def delete_absent)
next
  case (Some a)
  with assms have "Suc (length (AList.delete k (rows s))) = length (rows s)"
    by (rule length_delete_present)
  with Some show ?thesis
    by (auto simp: delete_def size_of_def AList.delete_idem AList.delete_conv)
qed

theorem delete_idempotent_witness:
  "distinct (map fst (rows (ages sample_env)))
   \<and> snd (delete (ages sample_env) (JStr ''b''))
   \<and> size_of (ages sample_env) = 3
   \<and> size_of (fst (delete (ages sample_env) (JStr ''b''))) = 2
   \<and> delete (fst (delete (ages sample_env) (JStr ''b''))) (JStr ''b'')
       = (fst (delete (ages sample_env) (JStr ''b'')), False)"
proof -
  have d: "distinct (map fst (rows (ages sample_env)))"
    by (simp add: ages_rows)
  show ?thesis
    using d delete_idempotent [OF d, of "JStr ''b''"]
    by (simp add: ages_rows size_of_def)
qed

subsection \<open>update of a missing key\<close>

text \<open>
  C6. \<^verbatim>\<open>update(id, patch)\<close> on a key that is not in the table returns \<^verbatim>\<open>undefined\<close>
  and leaves the whole state as it was, whatever the patch.
\<close>

theorem update_missing:
  assumes "map_of (rows s) k = None"
  shows "update s k patch = (s, Inr JUndefined)"
  using assms by (simp add: update_def)

theorem update_missing_witness:
  "map_of (rows empty_table) (JStr ''a'') = None
   \<and> update empty_table (JStr ''a'') [(''age'', JNum 1)] = (empty_table, Inr JUndefined)"
proof -
  have h: "map_of (rows empty_table) (JStr ''a'') = None"
    by (simp add: empty_table_def)
  show ?thesis
    using h update_missing [OF h, of "[(''age'', JNum 1)]"] by simp
qed

subsection \<open>Pagination\<close>

text \<open>
  C9, as stated, fails: \<^verbatim>\<open>slice\<close> counts a negative index from the end of the array.
  In the scenario \<^verbatim>\<open>query({limit: -1})\<close> returns the records a and b, two of the
  three, and not at most \<open>limit\<close> of them.
\<close>

theorem query_pagination_counterexample:
  "ids_of (query no_coercion (ages sample_env) (no_options\<lparr>limit := Some (- 1)\<rparr>))
     = Some [JStr ''a'', JStr ''b'']"
  by (rule ages_negative_limit)

text \<open>
  C9, amended. With an offset and a limit that are not negative, \<^verbatim>\<open>query\<close> returns
  what the same query without them returns (after filtering and sorting), less its
  first \<open>off\<close> records and cut to at most \<open>lim\<close> records; a missing offset skips
  nothing and a missing limit cuts nothing. In the scenario of the specification,
  sorting by \<^verbatim>\<open>age\<close> gives the order b, c, a, and descending with offset 1 and limit 1
  gives c.
\<close>

theorem query_pagination:
  assumes "0 \<le> off" "0 \<le> lim"
  shows "query cg s (opts\<lparr>offset := Some off, limit := Some lim\<rparr>) =
           apsnd (map_sum (\<lambda>err. err) (\<lambda>xs. take (nat lim) (drop (nat off) xs)))
             (query cg s (opts\<lparr>offset := None, limit := None\<rparr>))
       \<and> query cg s (opts\<lparr>offset := Some off, limit := None\<rparr>) =
           apsnd (map_sum (\<lambda>err. err) (\<lambda>xs. drop (nat off) xs))
             (query cg s (opts\<lparr>offset := None, limit := None\<rparr>))
       \<and> query cg s (opts\<lparr>offset := None, limit := Some lim\<rparr>) =
           apsnd (map_sum (\<lambda>err. err) (\<lambda>xs. take (nat lim) xs))
             (query cg s (opts\<lparr>offset := None, limit := None\<rparr>))
       \<and> ids_of (query cg (ages e) (no_options\<lparr>sortBy := Some ''age''\<rparr>))
           = Some [JStr ''b'', JStr ''c'', JStr ''a'']
       \<and> ids_of (query cg (ages e)
             (no_options\<lparr>sortBy := Some ''age'', sortOrder := Some Desc,
                offset := Some 1, limit := Some 1\<rparr>))
           = Some [JStr ''c'']"
proof -
  have 1: "query cg s (opts\<lparr>offset := Some off, limit := Some lim\<rparr>) =
           apsnd (map_sum (\<lambda>err. err) (\<lambda>xs. take (nat lim) (drop (nat off) xs)))
             (query cg s (opts\<lparr>offset := None, limit := None\<rparr>))"
    using assms
    by (auto simp: query_def Let_def slice_count slice_whole
             split: sum.splits prod.splits option.splits)
  have 2: "query cg s (opts\<lparr>offset := Some off, limit := None\<rparr>) =
           apsnd (map_sum (\<lambda>err. err) (\<lambda>xs. drop (nat off) xs))
             (query cg s (opts\<lparr>offset := None, limit := None\<rparr>))"
    using assms
    by (auto simp: query_def Let_def slice_all slice_whole
             split: sum.splits prod.splits option.splits)
  have 3: "query cg s (opts\<lparr>offset := None, limit := Some lim\<rparr>) =
           apsnd (map_sum (\<lambda>err. err) (\<lambda>xs. take (nat lim) xs))
             (query cg s (opts\<lparr>offset := None, limit := None\<rparr>))"
    using assms slice_count [of 0 lim]
    by (auto simp: query_def Let_def slice_whole
             split: sum.splits prod.splits option.splits)
  from 1 2 3 ages_by_age ages_by_age_desc_page show ?thesis by blast
qed

theorem query_pagination_witness:
  "(0::int) \<le> 1 \<and> (0::int) \<le> 1
   \<and> query no_coercion (ages sample_env)
         (no_options\<lparr>sortBy := Some ''age'', sortOrder := Some Desc,
            offset := Some 1, limit := Some 1\<rparr>) =
       apsnd (map_sum (\<lambda>err. err) (\<lambda>xs. take (nat 1) (drop (nat 1) xs)))
         (query no_coercion (ages sample_env)
            (no_options\<lparr>sortBy := Some ''age'', sortOrder := Some Desc,
               offset := None, limit := None\<rparr>))
   \<and> ids_of (query no_coercion (ages sample_env)
         (no_options\<lparr>sortBy := Some ''age'', sortOrder := Some Desc,
            offset := Some 1, limit := Some 1\<rparr>))
       = Some [JStr ''c'']"
proof -
  have h: "(0::int) \<le> 1" by simp
  note page = query_pagination [OF h h, of no_coercion "ages sample_env"
        "no_options\<lparr>sortBy := Some ''age'', sortOrder := Some Desc\<rparr>" sample_env]
  from page have 1: "query no_coercion (ages sample_env)
         (no_options\<lparr>sortBy := Some ''age'', sortOrder := Some Desc,
            offset := Some 1, limit := Some 1\<rparr>) =
       apsnd (map_sum (\<lambda>err. err) (\<lambda>xs. take (nat 1) (drop (nat 1) xs)))
         (query no_coercion (ages sample_env)
            (no_options\<lparr>sortBy := Some ''age'', sortOrder := Some Desc,
               offset := None, limit := None\<rparr>))"
    by (rule conjunct1)
  from page have 2: "ids_of (query no_coercion (ages sample_env)
         (no_options\<lparr>sortBy := Some ''age'', sortOrder := Some Desc,
            offset := Some 1, limit := Some 1\<rparr>))
       = Some [JStr ''c'']"
    by blast
  from h 1 2 show ?thesis by blast
qed

subsection \<open>The invariant of the store\<close>

lemma heap_get_append: "a < length h \<Longrightarrow> heap_get (h @ ext) a = heap_get h a"
  by (simp add: heap_get_def nth_append)

lemma heap_get_new: "heap_get (h @ obj # ext) (length h) = Some obj"
  by (simp add: heap_get_def nth_append)

lemma get_field_append: "a < length h \<Longrightarrow> get_field (h @ ext) (JRef a) k = get_field h (JRef a) k"
  by (simp add: get_field_def own_props_def heap_get_append)

lemma row_ok_addr: "row_ok h r \<Longrightarrow> snd r < length h"
  by (auto simp: row_ok_def ident_ok_def get_field_def own_props_def heap_get_def inherited_def
           split: jsval.splits if_splits)

lemma row_ok_append: "row_ok h r \<Longrightarrow> row_ok (h @ ext) r"
  using row_ok_addr [of h r] by (simp add: row_ok_def get_field_append)

lemma rows_ok_append: "list_all (row_ok h) rs \<Longrightarrow> list_all (row_ok (h @ ext)) rs"
  by (simp add: list_all_iff row_ok_append)

lemma set_update_subset: "set (AList.update k v al) \<subseteq> insert (k, v) (set al)"
  by (induction al) auto

lemma rows_ok_update:
  "list_all P rs \<Longrightarrow> P (k, a) \<Longrightarrow> list_all P (AList.update k a rs)"
  using set_update_subset [of k a rs] by (auto simp: list_all_iff)

lemma rows_ok_delete: "list_all P rs \<Longrightarrow> list_all P (AList.delete k rs)"
  by (auto simp: list_all_iff AList.delete_eq)

lemma makeId_nonempty: "makeId e p \<noteq> []"
  by (simp add: makeId_def)

lemma get_prop_update_same: "get_prop (AList.update k v ps) k = v"
  by (simp add: get_prop_def AList.update_conv')

lemma map_of_spread_keep:
  "list_all (\<lambda>p. fst p = n \<longrightarrow> snd p = v) b \<Longrightarrow> map_of a n = Some v \<Longrightarrow> map_of (spread a b) n = Some v"
  unfolding spread_def
  by (induction b arbitrary: a) (auto simp: AList.update_conv')

lemma clone_all_prefix: "clone_all h as = Inr (h1, vs) \<Longrightarrow> \<exists>ext. h1 = h @ ext"
proof (induction as arbitrary: h h1 vs)
  case Nil
  then show ?case by simp
next
  case (Cons a as)
  then show ?case
    by (auto split: sum.splits prod.splits dest!: deepClone_prefix) (metis append.assoc)
qed

lemma query_state: "\<exists>ext. fst (query cg s opts) = s\<lparr>mem := mem s @ ext\<rparr>"
proof (cases "clone_all (mem s) (map snd (rows s))")
  case (Inl e)
  then have "fst (query cg s opts) = s" by (simp add: query_def)
  then have "fst (query cg s opts) = s\<lparr>mem := mem s @ []\<rparr>" by simp
  then show ?thesis ..
next
  case (Inr p)
  obtain h1 vs where p: "p = (h1, vs)" by (cases p)
  with Inr clone_all_prefix obtain ext where "h1 = mem s @ ext" by blast
  with Inr p have "fst (query cg s opts) = s\<lparr>mem := mem s @ ext\<rparr>"
    by (simp add: query_def Let_def split: sum.splits)
  then show ?thesis ..
qed

lemma get_state: "\<exists>ext. fst (get s k) = s\<lparr>mem := mem s @ ext\<rparr>"
proof (cases "map_of (rows s) k")
  case None
  then have "fst (get s k) = s\<lparr>mem := mem s @ []\<rparr>" by (simp add: get_def)
  then show ?thesis ..
next
  case (Some a)
  show ?thesis
  proof (cases "deepClone (mem s) (JRef a)")
    case (Inl e)
    with Some have "fst (get s k) = s\<lparr>mem := mem s @ []\<rparr>" by (simp add: get_def)
    then show ?thesis ..
  next
    case (Inr p)
    obtain h1 v where p: "p = (h1, v)" by (cases p)
    with Inr deepClone_prefix obtain ext where "h1 = mem s @ ext" by blast
    with Inr p Some have "fst (get s k) = s\<lparr>mem := mem s @ ext\<rparr>" by (simp add: get_def)
    then show ?thesis ..
  qed
qed

lemma store_inv_append: "store_inv s \<Longrightarrow> store_inv (s\<lparr>mem := mem s @ ext\<rparr>)"
  by (simp add: store_inv_def rows_ok_append)

lemma insert_row_ident:
  "insert_row s e row =
     (case deepClone (mem s @ [JObject (AList.update ''id'' (row_ident e row) row)]) (JRef (length (mem s))) of
        Inl err \<Rightarrow> (\<lparr>mem = mem s @ [JObject (AList.update ''id'' (row_ident e row) row)],
                     rows = AList.update (row_ident e row) (length (mem s)) (rows s)\<rparr>, Inl err)
      | Inr (h, v) \<Rightarrow> (\<lparr>mem = h, rows = AList.update (row_ident e row) (length (mem s)) (rows s)\<rparr>, Inr v))"
  unfolding insert_row_def row_ident_def Let_def
  by (simp split: sum.splits prod.splits)

lemma insert_state:
  "\<exists>ext. fst (insert_row s e row) =
     \<lparr>mem = mem s @ JObject (AList.update ''id'' (row_ident e row) row) # ext,
      rows = AList.update (row_ident e row) (length (mem s)) (rows s)\<rparr>"
proof (cases "deepClone (mem s @ [JObject (AList.update ''id'' (row_ident e row) row)]) (JRef (length (mem s)))")
  case (Inl err)
  then have "fst (insert_row s e row) = \<lparr>mem = mem s @ JObject (AList.update ''id'' (row_ident e row) row) # [], rows = AList.update (row_ident e row) (length (mem s)) (rows s)\<rparr>"
    by (simp add: insert_row_ident)
  then show ?thesis ..
next
  case (Inr p)
  obtain h1 v where p: "p = (h1, v)" by (cases p)
  with Inr deepClone_prefix obtain ext where "h1 = (mem s @ [JObject (AList.update ''id'' (row_ident e row) row)]) @ ext" by blast
  with Inr p have "fst (insert_row s e row) = \<lparr>mem = mem s @ JObject (AList.update ''id'' (row_ident e row) row) # ext, rows = AList.update (row_ident e row) (length (mem s)) (rows s)\<rparr>"
    by (simp add: insert_row_ident)
  then show ?thesis ..
qed
lemma update_state:
  "map_of (rows s) k = Some a \<Longrightarrow>
   \<exists>ext. fst (update s k patch) =
     \<lparr>mem = mem s @ JObject (spread (own_props (mem s) a) patch) # ext,
      rows = AList.update k (length (mem s)) (rows s)\<rparr>"
proof -
  assume a: "map_of (rows s) k = Some a"
  let ?h = "mem s @ [JObject (spread (own_props (mem s) a) patch)]"
  show ?thesis
  proof (cases "deepClone ?h (JRef (length (mem s)))")
    case (Inl err)
    with a have "fst (update s k patch) = \<lparr>mem = mem s @ JObject (spread (own_props (mem s) a) patch) # [], rows = AList.update k (length (mem s)) (rows s)\<rparr>"
      by (simp add: update_def Let_def)
    then show ?thesis ..
  next
    case (Inr p)
    obtain h1 v where p: "p = (h1, v)" by (cases p)
    with Inr deepClone_prefix obtain ext where "h1 = ?h @ ext" by blast
    with Inr p a have "fst (update s k patch) = \<lparr>mem = mem s @ JObject (spread (own_props (mem s) a) patch) # ext, rows = AList.update k (length (mem s)) (rows s)\<rparr>"
      by (simp add: update_def Let_def)
    then show ?thesis ..
  qed
qed

lemma store_inv_insert:
  assumes "store_inv s" "op_ok (Insert e row)"
  shows "store_inv (fst (insert_row s e row))"
proof -
  let ?k = "row_ident e row"
  obtain ext where st: "fst (insert_row s e row) =
     \<lparr>mem = mem s @ JObject (AList.update ''id'' ?k row) # ext,
      rows = AList.update ?k (length (mem s)) (rows s)\<rparr>"
    using insert_state by blast
  have k: "ident_ok ?k"
    using assms(2) by (auto simp: row_ident_def ident_ok_def makeId_nonempty)
  have new: "row_ok (mem s @ JObject (AList.update ''id'' ?k row) # ext) (?k, length (mem s))"
    using k by (simp add: row_ok_def get_field_def own_props_def heap_get_new AList.update_conv')
  have old: "list_all (row_ok (mem s @ JObject (AList.update ''id'' ?k row) # ext)) (rows s)"
    using assms(1) by (simp add: store_inv_def rows_ok_append)
  show ?thesis
    using assms(1) new old
    by (simp add: st store_inv_def rows_ok_update AList.distinct_update)
qed

lemma store_inv_update:
  assumes "store_inv s" "op_ok (Update k patch)"
  shows "store_inv (fst (update s k patch))"
proof (cases "map_of (rows s) k")
  case None
  with assms show ?thesis by (simp add: update_def)
next
  case (Some a)
  then obtain ext where st: "fst (update s k patch) =
     \<lparr>mem = mem s @ JObject (spread (own_props (mem s) a) patch) # ext,
      rows = AList.update k (length (mem s)) (rows s)\<rparr>"
    using update_state by blast
  from Some have "(k, a) \<in> set (rows s)" by (rule map_of_SomeD)
  with assms(1) have ok: "row_ok (mem s) (k, a)"
    by (auto simp: store_inv_def list_all_iff)
  then have "map_of (own_props (mem s) a) ''id'' = Some k"
    by (auto simp: row_ok_def ident_ok_def get_field_def inherited_def
             split: option.splits jsval.splits if_splits)
  with assms(2) have "map_of (spread (own_props (mem s) a) patch) ''id'' = Some k"
    by (simp add: map_of_spread_keep)
  with ok have new: "row_ok (mem s @ JObject (spread (own_props (mem s) a) patch) # ext) (k, length (mem s))"
    by (simp add: row_ok_def get_field_def own_props_def heap_get_new)
  have old: "list_all (row_ok (mem s @ JObject (spread (own_props (mem s) a) patch) # ext)) (rows s)"
    using assms(1) by (simp add: store_inv_def rows_ok_append)
  show ?thesis
    using assms(1) new old
    by (simp add: st store_inv_def rows_ok_update AList.distinct_update)
qed

lemma store_inv_exec:
  assumes "store_inv s" "op_ok x"
  shows "store_inv (exec cg s x)"
proof (cases x)
  case (Insert e row)
  with assms show ?thesis by (simp add: store_inv_insert)
next
  case (Get k)
  obtain ext where "fst (get s k) = s\<lparr>mem := mem s @ ext\<rparr>" using get_state by blast
  with assms Get show ?thesis by (simp add: store_inv_append)
next
  case (Update k patch)
  with assms show ?thesis by (simp add: store_inv_update)
next
  case (Delete k)
  with assms show ?thesis
    by (simp add: delete_def store_inv_def rows_ok_delete AList.distinct_delete)
next
  case (Query opts)
  obtain ext where "fst (query cg s opts) = s\<lparr>mem := mem s @ ext\<rparr>" using query_state by blast
  with assms Query show ?thesis by (simp add: store_inv_append)
next
  case Clear
  then show ?thesis by (simp add: clear_def store_inv_def)
qed

lemma store_inv_run:
  "store_inv s \<Longrightarrow> list_all op_ok ops \<Longrightarrow> store_inv (foldl (exec cg) s ops)"
  by (induction ops arbitrary: s) (simp_all add: store_inv_exec)

text \<open>
  C1, as stated, fails: after \<^verbatim>\<open>insert({id: "a"})\<close>, the call
  \<^verbatim>\<open>update("a", {id: "b"})\<close> leaves under the key \<^verbatim>\<open>"a"\<close> a record whose
  \<^verbatim>\<open>id\<close> is \<^verbatim>\<open>"b"\<close>.
\<close>

lemma update_breaks_ident:
  "\<not> store_inv (foldl (exec cg) empty_table
       [Insert e [(''id'', JStr ''a'')], Update (JStr ''a'') [(''id'', JStr ''b'')]])"
  by code_simp

theorem store_invariant_counterexample:
  "\<not> store_inv (foldl (exec no_coercion) empty_table
       [Insert sample_env [(''id'', JStr ''a'')], Update (JStr ''a'') [(''id'', JStr ''b'')]])"
  by (rule update_breaks_ident)

text \<open>
  C1, amended. From an empty table (in any heap), every sequence of operations in
  which no \<^verbatim>\<open>insert\<close> carries an explicit identifier other than a non-empty string
  and no \<^verbatim>\<open>update\<close> carries a patch that sets \<^verbatim>\<open>id\<close> to something else than the
  key leads to a state where the keys are distinct and every stored record has, as
  its \<^verbatim>\<open>id\<close>, the non-empty string it is stored under.
\<close>

theorem store_invariant:
  assumes "list_all op_ok ops"
  shows "store_inv (foldl (exec cg) \<lparr>mem = h0, rows = []\<rparr> ops)"
proof -
  have "store_inv \<lparr>mem = h0, rows = []\<rparr>"
    by (simp add: store_inv_def)
  with assms show ?thesis
    by (simp add: store_inv_run)
qed

theorem store_invariant_witness:
  "list_all op_ok
     [Insert sample_env [(''name'', JStr ''x'')], Insert sample_env [(''id'', JStr ''a'')],
      Update (JStr ''a'') [(''name'', JStr ''y'')], Get (JStr ''a''), Delete (JStr ''zz''),
      Query no_options]
   \<and> store_inv (foldl (exec no_coercion) \<lparr>mem = [], rows = []\<rparr>
     [Insert sample_env [(''name'', JStr ''x'')], Insert sample_env [(''id'', JStr ''a'')],
      Update (JStr ''a'') [(''name'', JStr ''y'')], Get (JStr ''a''), Delete (JStr ''zz''),
      Query no_options])"
proof -
  have h: "list_all op_ok
     [Insert sample_env [(''name'', JStr ''x'')], Insert sample_env [(''id'', JStr ''a'')],
      Update (JStr ''a'') [(''name'', JStr ''y'')], Get (JStr ''a''), Delete (JStr ''zz''),
      Query no_options]"
    by (simp add: nullish_def get_prop_def ident_ok_def)
  from h store_invariant [OF h, of no_coercion "[]"] show ?thesis by blast
qed

subsection \<open>The sort\<close>

lemma insort_cmp_mset: "insort_cmp c x ys = Inr zs \<Longrightarrow> mset zs = mset (x # ys)"
  by (induction ys arbitrary: zs) (auto split: sum.splits if_splits)

lemma sort_cmp_mset: "sort_cmp c xs = Inr ys \<Longrightarrow> mset ys = mset xs"
  by (induction xs arbitrary: ys) (auto split: sum.splits dest!: insort_cmp_mset)

lemma insort_cmp_total:
  "\<forall>y\<in>set ys. \<not> isl (c x y) \<Longrightarrow> \<exists>zs. insort_cmp c x ys = Inr zs"
  by (induction ys) (auto split: sum.splits)

lemma sort_cmp_total:
  "\<forall>x\<in>set xs. \<forall>y\<in>set xs. \<not> isl (c x y) \<Longrightarrow> \<exists>ys. sort_cmp c xs = Inr ys"
proof (induction xs)
  case Nil
  then show ?case by simp
next
  case (Cons x xs)
  then obtain ys where ys: "sort_cmp c xs = Inr ys" by auto
  then have "set ys = set xs" by (metis sort_cmp_mset set_mset_mset)
  with Cons.prems have "\<forall>y\<in>set ys. \<not> isl (c x y)" by simp
  then obtain zs where "insort_cmp c x ys = Inr zs"
    using insort_cmp_total [of ys c x] by auto
  with ys show ?case by simp
qed

lemma insort_cmp_sorted:
  assumes "insort_cmp c x ys = Inr zs" "sorted_wrt le ys"
    and "\<And>y r. y \<in> set ys \<Longrightarrow> c x y = Inr r \<Longrightarrow> (if r \<le> 0 then le x y else le y x)"
    and "\<And>a b. a \<in> set ys \<Longrightarrow> b \<in> set ys \<Longrightarrow> le x a \<Longrightarrow> le a b \<Longrightarrow> le x b"
  shows "sorted_wrt le zs"
  using assms
proof (induction ys arbitrary: zs)
  case Nil
  then show ?case by auto
next
  case (Cons y ys)
  obtain r where r: "c x y = Inr r"
    using Cons.prems(1) by (auto split: sum.splits)
  have tail: "sorted_wrt le ys" and head: "\<forall>b\<in>set ys. le y b"
    using Cons.prems(2) by simp_all
  show ?case
  proof (cases "r \<le> 0")
    case True
    with r Cons.prems(1) have zs: "zs = x # y # ys" by simp
    from True r Cons.prems(3) [of y r] have xy: "le x y" by simp
    have "le x b" if "b \<in> set ys" for b
    proof -
      from that head have "le y b" by simp
      with xy that show ?thesis
        using Cons.prems(4) [of y b] by simp
    qed
    with xy head tail show ?thesis by (simp add: zs)
  next
    case False
    with r Cons.prems(1) obtain zs' where zs': "insort_cmp c x ys = Inr zs'" "zs = y # zs'"
      by (auto split: sum.splits)
    from False r Cons.prems(3) [of y r] have yx: "le y x" by simp
    have "sorted_wrt le zs'"
    proof (rule Cons.IH [OF zs'(1) tail])
      fix y' r'
      assume "y' \<in> set ys" "c x y' = Inr r'"
      then show "if r' \<le> 0 then le x y' else le y' x"
        using Cons.prems(3) [of y' r'] by simp
    next
      fix a b
      assume "a \<in> set ys" "b \<in> set ys" "le x a" "le a b"
      then show "le x b"
        using Cons.prems(4) [of a b] by simp
    qed
    moreover have "set zs' = insert x (set ys)"
      using insort_cmp_mset [OF zs'(1)] by (metis set_mset_mset list.simps(15))
    ultimately show ?thesis
      using head yx by (simp add: zs'(2))
  qed
qed

lemma insort_cmp_filter:
  assumes "insort_cmp c x ys = Inr zs"
    and "\<And>y r. y \<in> set ys \<Longrightarrow> c x y = Inr r \<Longrightarrow> 0 < r \<Longrightarrow> f x \<noteq> f y"
  shows "filter (\<lambda>r. f r = v) zs = filter (\<lambda>r. f r = v) (x # ys)"
  using assms
proof (induction ys arbitrary: zs)
  case Nil
  then show ?case by auto
next
  case (Cons y ys)
  obtain r where r: "c x y = Inr r"
    using Cons.prems(1) by (auto split: sum.splits)
  show ?case
  proof (cases "r \<le> 0")
    case True
    with r Cons.prems(1) show ?thesis by simp
  next
    case False
    with r Cons.prems(1) obtain zs' where zs': "insort_cmp c x ys = Inr zs'" "zs = y # zs'"
      by (auto split: sum.splits)
    from False r Cons.prems(2) [of y r] have ne: "f x \<noteq> f y" by simp
    have "filter (\<lambda>r. f r = v) zs' = filter (\<lambda>r. f r = v) (x # ys)"
      using zs'(1) Cons.prems(2) by (intro Cons.IH) auto
    with ne show ?thesis by (auto simp: zs'(2))
  qed
qed

lemma sort_cmp_set: "sort_cmp c xs = Inr ys \<Longrightarrow> set ys = set xs"
  by (metis sort_cmp_mset set_mset_mset)

lemma sort_cmp_sorted:
  assumes "sort_cmp c xs = Inr ys"
    and "\<And>x y r. x \<in> set xs \<Longrightarrow> y \<in> set xs \<Longrightarrow> c x y = Inr r \<Longrightarrow>
           (if r \<le> 0 then le x y else le y x)"
    and "\<And>a b d. a \<in> set xs \<Longrightarrow> b \<in> set xs \<Longrightarrow> d \<in> set xs \<Longrightarrow> le a b \<Longrightarrow> le b d \<Longrightarrow> le a d"
  shows "sorted_wrt le ys"
  using assms
proof (induction xs arbitrary: ys)
  case Nil
  then show ?case by auto
next
  case (Cons x xs)
  from Cons.prems(1) obtain ys' where ys': "sort_cmp c xs = Inr ys'" "insort_cmp c x ys' = Inr ys"
    by (auto split: sum.splits)
  have set': "set ys' = set xs"
    using ys'(1) by (rule sort_cmp_set)
  have sorted': "sorted_wrt le ys'"
  proof (rule Cons.IH [OF ys'(1)])
    fix a b r
    assume "a \<in> set xs" "b \<in> set xs" "c a b = Inr r"
    then show "if r \<le> 0 then le a b else le b a"
      using Cons.prems(2) [of a b r] by simp
  next
    fix a b d
    assume "a \<in> set xs" "b \<in> set xs" "d \<in> set xs" "le a b" "le b d"
    then show "le a d"
      using Cons.prems(3) [of a b d] by simp
  qed
  show ?case
  proof (rule insort_cmp_sorted [OF ys'(2) sorted'])
    fix y r
    assume "y \<in> set ys'" "c x y = Inr r"
    then show "if r \<le> 0 then le x y else le y x"
      using Cons.prems(2) [of x y r] set' by simp
  next
    fix a b
    assume "a \<in> set ys'" "b \<in> set ys'" "le x a" "le a b"
    then show "le x b"
      using Cons.prems(3) [of x a b] set' by simp
  qed
qed

lemma sort_cmp_filter:
  assumes "sort_cmp c xs = Inr ys"
    and "\<And>x y r. x \<in> set xs \<Longrightarrow> y \<in> set xs \<Longrightarrow> c x y = Inr r \<Longrightarrow> 0 < r \<Longrightarrow> f x \<noteq> f y"
  shows "filter (\<lambda>r. f r = v) ys = filter (\<lambda>r. f r = v) xs"
  using assms
proof (induction xs arbitrary: ys)
  case Nil
  then show ?case by auto
next
  case (Cons x xs)
  from Cons.prems(1) obtain ys' where ys': "sort_cmp c xs = Inr ys'" "insort_cmp c x ys' = Inr ys"
    by (auto split: sum.splits)
  have set': "set ys' = set xs"
    using ys'(1) by (rule sort_cmp_set)
  have tail: "filter (\<lambda>r. f r = v) ys' = filter (\<lambda>r. f r = v) xs"
  proof (rule Cons.IH [OF ys'(1)])
    fix a b r
    assume "a \<in> set xs" "b \<in> set xs" "c a b = Inr r" "0 < r"
    then show "f a \<noteq> f b"
      using Cons.prems(2) [of a b r] by simp
  qed
  have "filter (\<lambda>r. f r = v) ys = filter (\<lambda>r. f r = v) (x # ys')"
  proof (rule insort_cmp_filter [OF ys'(2)])
    fix y r
    assume "y \<in> set ys'" "c x y = Inr r" "0 < r"
    then show "f x \<noteq> f y"
      using Cons.prems(2) [of x y r] set' by simp
  qed
  with tail show ?case by simp
qed

lemma compare_num:
  assumes "get_field h a k = JNum x" "get_field h b k = JNum y"
  shows "compare cg h k ord a b =
           Inr (if x = y then 0 else if (y < x) = (ord \<noteq> Some Desc) then 1 else - 1)"
  using assms by (simp add: compare_def js_gt_def Let_def)

lemma compare_str:
  assumes "get_field h a k = JStr x" "get_field h b k = JStr y"
  shows "compare cg h k ord a b =
           Inr (if x = y then 0 else if (y < x) = (ord \<noteq> Some Desc) then 1 else - 1)"
  using assms by (simp add: compare_def js_gt_def Let_def)

lemma compare_same_kind:
  assumes "is_num (get_field h a k) \<and> is_num (get_field h b k)
         \<or> is_str (get_field h a k) \<and> is_str (get_field h b k)"
  shows "\<exists>r. compare cg h k ord a b = Inr r
           \<and> (if r \<le> 0 then in_order ord (get_field h a k) (get_field h b k)
               else in_order ord (get_field h b k) (get_field h a k))
           \<and> (0 < r \<longrightarrow> get_field h a k \<noteq> get_field h b k)"
proof -
  from assms consider
      x y where "get_field h a k = JNum x" "get_field h b k = JNum y"
    | x y where "get_field h a k = JStr x" "get_field h b k = JStr y"
    by (auto simp: is_num_def is_str_def split: jsval.splits)
  then show ?thesis
  proof cases
    case 1
    then show ?thesis
      by (auto simp: compare_num in_order_def natural_le_def)
  next
    case 2
    then show ?thesis
      by (auto simp: compare_str in_order_def natural_le_def)
  qed
qed

lemma in_order_trans:
  "in_order ord a b \<Longrightarrow> in_order ord b d \<Longrightarrow> in_order ord a d"
  by (auto simp: in_order_def natural_le_def split: jsval.splits if_splits)

subsection \<open>query, step by step\<close>

lemma query_clone_Inl:
  "clone_all (mem s) (map snd (rows s)) = Inl err \<Longrightarrow> query cg s opts = (s, Inl err)"
  by (simp add: query_def)

lemma query_nopage:
  assumes "clone_all (mem s) (map snd (rows s)) = Inr (h, arr)" "offset opts = None" "limit opts = None"
  shows "query cg s opts =
    (s\<lparr>mem := h\<rparr>,
     (case sortBy opts of
        None \<Rightarrow> Inr (case filter_opt opts of None \<Rightarrow> arr | Some f \<Rightarrow> filter (\<lambda>row. list_all (matches h row) f) arr)
      | Some k \<Rightarrow>
          if k = [] then Inr (case filter_opt opts of None \<Rightarrow> arr | Some f \<Rightarrow> filter (\<lambda>row. list_all (matches h row) f) arr)
          else sort_cmp (compare cg h k (sortOrder opts))
                 (case filter_opt opts of None \<Rightarrow> arr | Some f \<Rightarrow> filter (\<lambda>row. list_all (matches h row) f) arr)))"
  using assms
  by (auto simp: query_def Let_def slice_whole split: sum.splits option.splits)

lemma same_kind_pair:
  assumes "same_kind (map f xs)" "a \<in> set xs" "b \<in> set xs"
  shows "is_num (f a) \<and> is_num (f b) \<or> is_str (f a) \<and> is_str (f b)"
  using assms by (auto simp: same_kind_def list_all_iff)


lemma query_all:
  "clone_all (mem s) (map snd (rows s)) = Inr (h, arr) \<Longrightarrow> query cg s no_options = (s\<lparr>mem := h\<rparr>, Inr arr)"
  by (simp add: query_nopage no_options_def)

lemma ages_clones:
  "clone_all (mem (ages e)) (map snd (rows (ages e)))
     = Inr (mem (ages e) @
            [JObject [(''id'', JStr ''a''), (''age'', JNum 30)],
             JObject [(''id'', JStr ''b''), (''age'', JNum 20)],
             JObject [(''id'', JStr ''c''), (''age'', JNum 25)]],
            [JRef 6, JRef 7, JRef 8])"
  by code_simp

lemma ages_all:
  "query cg (ages e) no_options
     = ((ages e)\<lparr>mem := mem (ages e) @
            [JObject [(''id'', JStr ''a''), (''age'', JNum 30)],
             JObject [(''id'', JStr ''b''), (''age'', JNum 20)],
             JObject [(''id'', JStr ''c''), (''age'', JNum 25)]]\<rparr>,
        Inr [JRef 6, JRef 7, JRef 8])"
  by (rule query_all [OF ages_clones])

lemma ages_mem_length: "length (mem (ages e)) = 6"
  by code_simp

lemma ages_fields:
  "get_field (mem (ages e) @
            [JObject [(''id'', JStr ''a''), (''age'', JNum 30)],
             JObject [(''id'', JStr ''b''), (''age'', JNum 20)],
             JObject [(''id'', JStr ''c''), (''age'', JNum 25)]]) (JRef 6) ''age'' = JNum 30"
  "get_field (mem (ages e) @
            [JObject [(''id'', JStr ''a''), (''age'', JNum 30)],
             JObject [(''id'', JStr ''b''), (''age'', JNum 20)],
             JObject [(''id'', JStr ''c''), (''age'', JNum 25)]]) (JRef 7) ''age'' = JNum 20"
  "get_field (mem (ages e) @
            [JObject [(''id'', JStr ''a''), (''age'', JNum 30)],
             JObject [(''id'', JStr ''b''), (''age'', JNum 20)],
             JObject [(''id'', JStr ''c''), (''age'', JNum 25)]]) (JRef 8) ''age'' = JNum 25"
  by (simp_all add: get_field_def own_props_def heap_get_def ages_mem_length nth_append)

lemma query_unpaged_then_slice:
  assumes "query cg s (opts\<lparr>offset := None, limit := None\<rparr>) = (s', Inr ys)"
  shows "query cg s opts =
    (s', Inr (slice ys (case offset opts of None \<Rightarrow> 0 | Some n \<Rightarrow> n)
               ((case offset opts of None \<Rightarrow> 0 | Some n \<Rightarrow> n)
                + (case limit opts of None \<Rightarrow> int (length ys) | Some n \<Rightarrow> n))))"
proof -
  obtain h arr where cl: "clone_all (mem s) (map snd (rows s)) = Inr (h, arr)"
    using assms by (cases "clone_all (mem s) (map snd (rows s))") (auto simp: query_clone_Inl)
  from assms show ?thesis
    by (auto simp: query_def cl Let_def slice_whole split: sum.splits option.splits if_splits)
qed

subsection \<open>Further scenarios, evaluated\<close>

text \<open>
  The table with a cyclic record, on which every query throws; the table with
  properties of the empty name; the results of single calls on the scenario of the
  specification; and a record with a date, inserted and read back.
\<close>

lemma knot_eval:
  "knot e = \<lparr>mem = [JObject [(''me'', JRef 0)], JObject [(''id'', JStr ''a''), (''self'', JRef 0)]],
             rows = [(JStr ''a'', 1)]\<rparr>"
  by code_simp

lemma knot_clone: "clone_all (mem (knot e)) (map snd (rows (knot e))) = Inl TypeError"
  by code_simp

lemma knot_query: "query cg (knot e) opts = (knot e, Inl TypeError)"
  using knot_clone by (rule query_clone_Inl)

lemma blanks_unsorted:
  "field_values [] (query cg (blanks e) (no_options\<lparr>sortBy := Some []\<rparr>)) = Some [JNum 2, JNum 1]"
  by code_simp







subsection \<open>Sorting is stable\<close>

lemma sort_stable_unpaged:
  assumes "k \<noteq> []"
    and "query cg s (opts\<lparr>sortBy := None, offset := None, limit := None\<rparr>) = (s', Inr xs)"
    and "same_kind (map (\<lambda>r. get_field (mem s') r k) xs)"
  shows "\<exists>ys. query cg s (opts\<lparr>sortBy := Some k, offset := None, limit := None\<rparr>) = (s', Inr ys)
           \<and> mset ys = mset xs
           \<and> sorted_wrt (\<lambda>a b. in_order (sortOrder opts)
                 (get_field (mem s') a k) (get_field (mem s') b k)) ys
           \<and> (\<forall>v. filter (\<lambda>r. get_field (mem s') r k = v) ys
                  = filter (\<lambda>r. get_field (mem s') r k = v) xs)"
proof -
  let ?f = "\<lambda>r. get_field (mem s') r k"
  let ?c = "compare cg (mem s') k (sortOrder opts)"
  obtain h arr where cl: "clone_all (mem s) (map snd (rows s)) = Inr (h, arr)"
    using assms(2) by (cases "clone_all (mem s) (map snd (rows s))") (auto simp: query_clone_Inl)
  have s': "s' = s\<lparr>mem := h\<rparr>"
    and xs: "xs = (case filter_opt opts of None \<Rightarrow> arr
                  | Some f \<Rightarrow> filter (\<lambda>row. list_all (matches h row) f) arr)"
    using assms(2) by (simp_all add: query_nopage [OF cl])
  have h: "mem s' = h" by (simp add: s')
  have q: "query cg s (opts\<lparr>sortBy := Some k, offset := None, limit := None\<rparr>) = (s', sort_cmp ?c xs)"
    using assms(1) by (simp add: query_nopage [OF cl] s' xs)
  have cmp: "\<exists>r. ?c a b = Inr r
           \<and> (if r \<le> 0 then in_order (sortOrder opts) (?f a) (?f b)
               else in_order (sortOrder opts) (?f b) (?f a))
           \<and> (0 < r \<longrightarrow> ?f a \<noteq> ?f b)"
    if "a \<in> set xs" "b \<in> set xs" for a b
    using same_kind_pair [OF assms(3) that] by (rule compare_same_kind)
  have "\<forall>a\<in>set xs. \<forall>b\<in>set xs. \<not> isl (?c a b)"
    using cmp by fastforce
  then obtain ys where ys: "sort_cmp ?c xs = Inr ys"
    using sort_cmp_total [of xs ?c] by auto
  have 1: "mset ys = mset xs"
    using ys by (rule sort_cmp_mset)
  have 2: "sorted_wrt (\<lambda>a b. in_order (sortOrder opts) (?f a) (?f b)) ys"
  proof (rule sort_cmp_sorted [OF ys])
    fix a b r
    assume "a \<in> set xs" "b \<in> set xs" "?c a b = Inr r"
    then show "if r \<le> 0 then in_order (sortOrder opts) (?f a) (?f b)
               else in_order (sortOrder opts) (?f b) (?f a)"
      using cmp [of a b] by auto
  next
    fix a b d
    assume "in_order (sortOrder opts) (?f a) (?f b)" "in_order (sortOrder opts) (?f b) (?f d)"
    then show "in_order (sortOrder opts) (?f a) (?f d)"
      by (rule in_order_trans)
  qed
  have 3: "filter (\<lambda>r. ?f r = v) ys = filter (\<lambda>r. ?f r = v) xs" for v
  proof (rule sort_cmp_filter [OF ys])
    fix a b r
    assume "a \<in> set xs" "b \<in> set xs" "?c a b = Inr r" "0 < r"
    then show "?f a \<noteq> ?f b"
      using cmp [of a b] by auto
  qed
  from q ys 1 2 3 show ?thesis by simp
qed

text \<open>
  Keys of different kinds have no natural ordering: \<^verbatim>\<open>undefined > 1\<close> and
  \<^verbatim>\<open>1 > undefined\<close> are both false, so the comparator puts each of the two before
  the other, and what \<^verbatim>\<open>sort\<close> makes of such a comparator is left to the engine.
\<close>

lemma compare_mixed:
  assumes "get_field h a k = JUndefined" "get_field h b k = JNum n"
  shows "compare no_coercion h k None a b = Inr (- 1)"
    and "compare no_coercion h k None b a = Inr (- 1)"
  using assms by (simp_all add: compare_def js_gt_def no_coercion_def)

text \<open>
  C7, as stated, fails: the empty string is a property name, but it is falsy, so
  \<^verbatim>\<open>query({sortBy: ""})\<close> does not sort. The records with the values 2 and 1 under
  that name come back in the order of their insertion.
\<close>

theorem query_sort_stable_counterexample:
  "field_values [] (query no_coercion (blanks sample_env) (no_options\<lparr>sortBy := Some []\<rparr>))
     = Some [JNum 2, JNum 1]"
  by (rule blanks_unsorted)

text \<open>
  C7, amended. Take a query with a \<^verbatim>\<open>sortBy\<close> that is not the empty string, and let
  \<open>xs\<close> be what the same query returns without \<^verbatim>\<open>sortBy\<close> and without pagination.
  When the sort keys of \<open>xs\<close> have a natural ordering (all numbers or all strings),
  the query without pagination returns a permutation \<open>ys\<close> of \<open>xs\<close> that is sorted by
  that ordering, turned round for \<^verbatim>\<open>desc\<close>, and in which the records with any one
  key \<open>v\<close> stand in the order they have in \<open>xs\<close>, whatever the \<^verbatim>\<open>sortOrder\<close>; the
  query itself returns the slice of \<open>ys\<close> that \<^verbatim>\<open>offset\<close> and \<^verbatim>\<open>limit\<close> select.
\<close>

theorem query_sort_stable:
  assumes "k \<noteq> []"
    and "query cg s (opts\<lparr>sortBy := None, offset := None, limit := None\<rparr>) = (s', Inr xs)"
    and "same_kind (map (\<lambda>r. get_field (mem s') r k) xs)"
  shows "\<exists>ys. query cg s (opts\<lparr>sortBy := Some k, offset := None, limit := None\<rparr>) = (s', Inr ys)
           \<and> mset ys = mset xs
           \<and> sorted_wrt (\<lambda>a b. in_order (sortOrder opts)
                 (get_field (mem s') a k) (get_field (mem s') b k)) ys
           \<and> (\<forall>v. filter (\<lambda>r. get_field (mem s') r k = v) ys
                  = filter (\<lambda>r. get_field (mem s') r k = v) xs)
           \<and> query cg s (opts\<lparr>sortBy := Some k\<rparr>) =
               (s', Inr (slice ys (case offset opts of None \<Rightarrow> 0 | Some n \<Rightarrow> n)
                  ((case offset opts of None \<Rightarrow> 0 | Some n \<Rightarrow> n)
                   + (case limit opts of None \<Rightarrow> int (length ys) | Some n \<Rightarrow> n))))"
proof -
  from sort_stable_unpaged [OF assms] obtain ys where
    ys: "query cg s (opts\<lparr>sortBy := Some k, offset := None, limit := None\<rparr>) = (s', Inr ys)"
    and rest: "mset ys = mset xs"
      "sorted_wrt (\<lambda>a b. in_order (sortOrder opts)
                 (get_field (mem s') a k) (get_field (mem s') b k)) ys"
      "\<forall>v. filter (\<lambda>r. get_field (mem s') r k = v) ys
                  = filter (\<lambda>r. get_field (mem s') r k = v) xs"
    by blast
  from ys have "query cg s ((opts\<lparr>sortBy := Some k\<rparr>)\<lparr>offset := None, limit := None\<rparr>) = (s', Inr ys)"
    by simp
  from query_unpaged_then_slice [OF this]
  have "query cg s (opts\<lparr>sortBy := Some k\<rparr>) =
               (s', Inr (slice ys (case offset opts of None \<Rightarrow> 0 | Some n \<Rightarrow> n)
                  ((case offset opts of None \<Rightarrow> 0 | Some n \<Rightarrow> n)
                   + (case limit opts of None \<Rightarrow> int (length ys) | Some n \<Rightarrow> n))))"
    by simp
  with ys rest show ?thesis by blast
qed

theorem query_sort_stable_witness:
  "''age'' \<noteq> []
   \<and> query no_coercion (ages sample_env)
         (no_options\<lparr>sortBy := None, offset := None, limit := None\<rparr>)
       = (fst (query no_coercion (ages sample_env) no_options), Inr [JRef 6, JRef 7, JRef 8])
   \<and> same_kind (map (\<lambda>r. get_field (mem (fst (query no_coercion (ages sample_env) no_options))) r ''age'')
         [JRef 6, JRef 7, JRef 8])
   \<and> (\<exists>ys. query no_coercion (ages sample_env)
               (no_options\<lparr>sortBy := Some ''age'', offset := None, limit := None\<rparr>)
             = (fst (query no_coercion (ages sample_env) no_options), Inr ys)
           \<and> mset ys = mset [JRef 6, JRef 7, JRef 8])"
proof -
  let ?s' = "fst (query no_coercion (ages sample_env) no_options)"
  have 1: "''age'' \<noteq> []" by simp
  have 2: "query no_coercion (ages sample_env)
         (no_options\<lparr>sortBy := None, offset := None, limit := None\<rparr>)
       = (?s', Inr [JRef 6, JRef 7, JRef 8])"
    by (simp add: ages_all) (simp add: no_options_def ages_all [unfolded no_options_def])
  have 3: "same_kind (map (\<lambda>r. get_field (mem ?s') r ''age'') [JRef 6, JRef 7, JRef 8])"
    by (simp add: ages_all ages_fields same_kind_def is_num_def)
  from 1 2 3 query_sort_stable [OF 1 2 3] show ?thesis by blast
qed

subsection \<open>Filtering by a plain value\<close>




subsection \<open>Predicates that throw\<close>

lemma matches_swallow: "matches h row (swallow p) = matches h row p"
proof (cases p)
  case (Pair k e)
  then show ?thesis
    by (cases e) (auto simp: swallow_def truthy_def split: option.splits)
qed

lemma throws_no_match: "throws_on h row p \<Longrightarrow> \<not> matches h row p"
proof (cases p)
  case (Pair k e)
  assume "throws_on h row p"
  with Pair show ?thesis
    by (cases e) (auto simp: throws_on_def)
qed

lemma set_slice: "set (slice xs a b) \<subseteq> set xs"
  unfolding slice_def Let_def
  by (meson set_take_subset set_drop_subset subset_trans)

lemma list_all_swallow:
  "list_all (matches h row) (map swallow f) = list_all (matches h row) f"
  by (simp add: list_all_iff matches_swallow)

lemma query_swallow:
  "query cg s (opts\<lparr>filter_opt := Some (map swallow f)\<rparr>) = query cg s (opts\<lparr>filter_opt := Some f\<rparr>)"
proof (cases "clone_all (mem s) (map snd (rows s))")
  case (Inl err)
  then show ?thesis by (simp add: query_clone_Inl)
next
  case (Inr p)
  then show ?thesis
    by (cases p) (auto simp: query_def Let_def list_all_swallow split: sum.splits option.splits)
qed

text \<open>
  C5, as stated, fails: \<^verbatim>\<open>query\<close> is not total. Only the call of the predicate is
  inside \<^verbatim>\<open>try\<close>; the copying of the stored records, before the filter, and the
  comparison of the sort keys, after it, are not. On the table \<open>knot\<close>, which holds
  a record that cannot be copied, a query whose filter is a predicate that throws
  ends in a \<^verbatim>\<open>TypeError\<close>.
\<close>

theorem query_predicate_failure_counterexample:
  "rows (knot sample_env) = [(JStr ''a'', 1)]
   \<and> snd (query no_coercion (knot sample_env)
            (no_options\<lparr>filter_opt := Some [(''id'', EPred always_throws)]\<rparr>)) = Inl TypeError"
  by (simp add: knot_query) (simp add: knot_eval)

text \<open>
  C5, amended. When the stored records can be copied, and the query has no
  \<^verbatim>\<open>sortBy\<close> or the comparison of the sort keys does not throw, \<^verbatim>\<open>query\<close> returns
  normally for every filter \<open>f\<close>, whatever its predicates do: a record on whose field
  a predicate of \<open>f\<close> throws is not in the result, and the result is the one of the
  filter whose predicates return \<^verbatim>\<open>false\<close> where those of \<open>f\<close> throw.
\<close>

theorem query_predicate_failure:
  assumes "clone_all (mem s) (map snd (rows s)) = Inr (h, arr)"
    and "sortBy opts = None \<or> (\<forall>a b. \<not> isl (cg h a b))"
  shows "\<exists>ys. query cg s (opts\<lparr>filter_opt := Some f\<rparr>) = (s\<lparr>mem := h\<rparr>, Inr ys)
           \<and> set ys \<subseteq> set arr
           \<and> (\<forall>row\<in>set arr. (\<exists>p\<in>set f. throws_on h row p) \<longrightarrow> row \<notin> set ys)
           \<and> query cg s (opts\<lparr>filter_opt := Some (map swallow f)\<rparr>) = (s\<lparr>mem := h\<rparr>, Inr ys)"
proof -
  let ?arr1 = "filter (\<lambda>row. list_all (matches h row) f) arr"
  have tot: "\<not> isl (compare cg h k ord a b)" if "sortBy opts \<noteq> None" for k ord a b
    using assms(2) that
    by (auto simp: compare_def js_gt_def Let_def isl_def split: sum.splits jsval.splits)
  have "\<exists>arr2. (case sortBy opts of
                  None \<Rightarrow> Inr ?arr1
                | Some k \<Rightarrow> if k = [] then Inr ?arr1
                            else sort_cmp (compare cg h k (sortOrder opts)) ?arr1) = Inr arr2
               \<and> set arr2 = set ?arr1"
  proof (cases "sortBy opts")
    case None
    then show ?thesis by simp
  next
    case (Some k)
    show ?thesis
    proof (cases "k = []")
      case True
      with Some show ?thesis by simp
    next
      case False
      have "\<not> isl (compare cg h k (sortOrder opts) a b)" for a b
        using tot Some by simp
      then obtain ys where ys: "sort_cmp (compare cg h k (sortOrder opts)) ?arr1 = Inr ys"
        using sort_cmp_total [of ?arr1 "compare cg h k (sortOrder opts)"] by auto
      with sort_cmp_set [OF ys] Some False show ?thesis by simp
    qed
  qed
  then obtain arr2 where arr2:
    "(case sortBy opts of
        None \<Rightarrow> Inr ?arr1
      | Some k \<Rightarrow> if k = [] then Inr ?arr1
                  else sort_cmp (compare cg h k (sortOrder opts)) ?arr1) = Inr arr2"
    "set arr2 = set ?arr1"
    by blast
  let ?ys = "slice arr2 (case offset opts of None \<Rightarrow> 0 | Some n \<Rightarrow> n)
               ((case offset opts of None \<Rightarrow> 0 | Some n \<Rightarrow> n)
                + (case limit opts of None \<Rightarrow> int (length arr2) | Some n \<Rightarrow> n))"
  have q: "query cg s (opts\<lparr>filter_opt := Some f\<rparr>) = (s\<lparr>mem := h\<rparr>, Inr ?ys)"
    using assms(1) arr2(1)
    by (auto simp: query_def Let_def split: option.splits if_splits)
  have sub: "set ?ys \<subseteq> set ?arr1"
    using set_slice [of arr2] arr2(2) by blast
  have 2: "set ?ys \<subseteq> set arr"
    using sub by auto
  have 3: "\<forall>row\<in>set arr. (\<exists>p\<in>set f. throws_on h row p) \<longrightarrow> row \<notin> set ?ys"
  proof (intro ballI impI)
    fix row
    assume "row \<in> set arr" "\<exists>p\<in>set f. throws_on h row p"
    then obtain p where "p \<in> set f" "\<not> matches h row p"
      using throws_no_match by blast
    then have "row \<notin> set ?arr1"
      by (auto simp: list_all_iff)
    with sub show "row \<notin> set ?ys" by blast
  qed
  from q 2 3 show ?thesis
    by (auto simp: query_swallow)
qed

theorem query_predicate_failure_witness:
  "clone_all (mem (ages sample_env)) (map snd (rows (ages sample_env)))
     = Inr (mem (ages sample_env) @
            [JObject [(''id'', JStr ''a''), (''age'', JNum 30)],
             JObject [(''id'', JStr ''b''), (''age'', JNum 20)],
             JObject [(''id'', JStr ''c''), (''age'', JNum 25)]],
            [JRef 6, JRef 7, JRef 8])
   \<and> (\<forall>a b. \<not> isl (no_coercion (mem (ages sample_env) @
            [JObject [(''id'', JStr ''a''), (''age'', JNum 30)],
             JObject [(''id'', JStr ''b''), (''age'', JNum 20)],
             JObject [(''id'', JStr ''c''), (''age'', JNum 25)]]) a b))
   \<and> throws_on (mem (ages sample_env) @
            [JObject [(''id'', JStr ''a''), (''age'', JNum 30)],
             JObject [(''id'', JStr ''b''), (''age'', JNum 20)],
             JObject [(''id'', JStr ''c''), (''age'', JNum 25)]]) (JRef 7)
         (''age'', EPred (\<lambda>h v. if v = JNum 20 then None else Some (JBool True)))
   \<and> (\<exists>ys. query no_coercion (ages sample_env)
          (no_options\<lparr>filter_opt :=
             Some [(''age'', EPred (\<lambda>h v. if v = JNum 20 then None else Some (JBool True)))]\<rparr>)
         = ((ages sample_env)\<lparr>mem := mem (ages sample_env) @
            [JObject [(''id'', JStr ''a''), (''age'', JNum 30)],
             JObject [(''id'', JStr ''b''), (''age'', JNum 20)],
             JObject [(''id'', JStr ''c''), (''age'', JNum 25)]]\<rparr>, Inr ys)
        \<and> JRef 7 \<notin> set ys)"
proof -
  let ?h = "mem (ages sample_env) @
            [JObject [(''id'', JStr ''a''), (''age'', JNum 30)],
             JObject [(''id'', JStr ''b''), (''age'', JNum 20)],
             JObject [(''id'', JStr ''c''), (''age'', JNum 25)]]"
  let ?p = "(''age'', EPred (\<lambda>h v. if v = JNum 20 then None else Some (JBool True)))"
  have 1: "clone_all (mem (ages sample_env)) (map snd (rows (ages sample_env)))
     = Inr (?h, [JRef 6, JRef 7, JRef 8])"
    by (rule ages_clones)
  have 2: "\<forall>a b. \<not> isl (no_coercion ?h a b)"
    by (simp add: no_coercion_def)
  have 3: "throws_on ?h (JRef 7) ?p"
    by (simp add: throws_on_def ages_fields)
  from 2 have 4: "sortBy no_options = None \<or> (\<forall>a b. \<not> isl (no_coercion ?h a b))"
    by (rule disjI2)
  from query_predicate_failure [where cg = no_coercion and opts = no_options and f = "[?p]", OF 1 4] 3
  have "\<exists>ys. query no_coercion (ages sample_env) (no_options\<lparr>filter_opt := Some [?p]\<rparr>)
         = ((ages sample_env)\<lparr>mem := ?h\<rparr>, Inr ys) \<and> JRef 7 \<notin> set ys"
    by auto
  with 1 2 3 show ?thesis by blast
qed

subsection \<open>JSON values in the heap\<close>

text \<open>
  A value that is a JSON tree keeps its tree when the heap grows, \<^verbatim>\<open>JSON.parse\<close>
  builds a value with the tree it is given, and \<^verbatim>\<open>JSON.stringify\<close> gives back the
  tree of a value that has one.
\<close>

lemma rep_append:
  "rep h v j \<Longrightarrow> rep (h @ ext) v j"
  "rep_props h qs ps \<Longrightarrow> rep_props (h @ ext) qs ps"
  "rep_elems h vs js \<Longrightarrow> rep_elems (h @ ext) vs js"
  by (induction h v j and h qs ps and h vs js rule: rep_rep_props_rep_elems.induct)
     (auto simp: heap_get_append heap_get_def nth_append split: jsval.splits option.splits jsobj.splits if_splits)

lemma parse_rep:
  "rep (fst (parse h j)) (snd (parse h j)) j"
  "rep_props (fst (parse_props h ps)) (snd (parse_props h ps)) ps"
  "rep_elems (fst (parse_elems h js)) (snd (parse_elems h js)) js"
proof (induction h j and h ps and h js rule: parse_parse_props_parse_elems.induct)
  case (5 h js)
  obtain h1 vs where p: "parse_elems h js = (h1, vs)" by (cases "parse_elems h js")
  with 5 have "rep_elems h1 vs js" by simp
  then have "rep_elems (h1 @ [JArray vs]) vs js" by (rule rep_append)
  with p show ?case by (simp add: heap_get_def)
next
  case (6 h ps)
  obtain h1 qs where p: "parse_props h ps = (h1, qs)" by (cases "parse_props h ps")
  with 6 have "rep_props h1 qs ps" by simp
  then have "rep_props (h1 @ [JObject qs]) qs ps" by (rule rep_append)
  with p show ?case by (simp add: heap_get_def)
next
  case (8 h p ps)
  obtain h1 v where a: "parse h (snd p) = (h1, v)" by (cases "parse h (snd p)")
  obtain h2 qs where b: "parse_props h1 ps = (h2, qs)" by (cases "parse_props h1 ps")
  from 8(1) a have r1: "rep h1 v (snd p)" by simp
  from 8(2) [OF a [symmetric]] b have r2: "rep_props h2 qs ps" by simp
  from parse_prefix(2) [of h1 ps] b obtain ext where "h2 = h1 @ ext" by auto
  with r1 have "rep h2 v (snd p)" by (simp add: rep_append)
  with r2 a b show ?case by simp
next
  case (10 h j js)
  obtain h1 v where a: "parse h j = (h1, v)" by (cases "parse h j")
  obtain h2 vs where b: "parse_elems h1 js = (h2, vs)" by (cases "parse_elems h1 js")
  from 10(1) a have r1: "rep h1 v j" by simp
  from 10(2) [OF a [symmetric]] b have r2: "rep_elems h2 vs js" by simp
  from parse_prefix(3) [of h1 js] b obtain ext where "h2 = h1 @ ext" by auto
  with r1 have "rep h2 v j" by (simp add: rep_append)
  with r2 a b show ?case by simp
qed simp_all






subsection \<open>What deepClone allocates\<close>

text \<open>
  \<^verbatim>\<open>JSON.parse\<close> allocates every object of its result, so what \<^verbatim>\<open>deepClone\<close> returns
  shares no object with what was there before; and \<^verbatim>\<open>JSON.stringify\<close> reads only
  the objects that its argument can reach.
\<close>

lemma val_from_mono: "val_from n v \<Longrightarrow> m \<le> n \<Longrightarrow> val_from m v"
  by (auto simp: val_from_def split: jsval.splits)

lemma vals_from_mono: "list_all (val_from n) vs \<Longrightarrow> m \<le> n \<Longrightarrow> list_all (val_from m) vs"
  by (auto simp: list_all_iff intro: val_from_mono)

lemma obj_from_mono: "obj_from n obj \<Longrightarrow> m \<le> n \<Longrightarrow> obj_from m obj"
  unfolding obj_from_def by (rule vals_from_mono)

lemma objs_from_mono: "list_all (obj_from n) hs \<Longrightarrow> m \<le> n \<Longrightarrow> list_all (obj_from m) hs"
  by (auto simp: list_all_iff intro: obj_from_mono)

lemma parse_fresh:
  "\<exists>ext. fst (parse h j) = h @ ext \<and> list_all (obj_from (length h)) ext
         \<and> val_from (length h) (snd (parse h j))"
  "\<exists>ext. fst (parse_props h ps) = h @ ext \<and> list_all (obj_from (length h)) ext
         \<and> list_all (val_from (length h)) (map snd (snd (parse_props h ps)))"
  "\<exists>ext. fst (parse_elems h js) = h @ ext \<and> list_all (obj_from (length h)) ext
         \<and> list_all (val_from (length h)) (snd (parse_elems h js))"
proof (induction h j and h ps and h js rule: parse_parse_props_parse_elems.induct)
  case (5 h js)
  obtain h1 vs where p: "parse_elems h js = (h1, vs)" by (cases "parse_elems h js")
  with 5 obtain ext where e: "h1 = h @ ext" "list_all (obj_from (length h)) ext"
    "list_all (val_from (length h)) vs" by auto
  have "fst (parse h (JsonArr js)) = h @ (ext @ [JArray vs])"
    using p e(1) by simp
  moreover have "list_all (obj_from (length h)) (ext @ [JArray vs])"
    using e(2,3) by (simp add: obj_from_def obj_vals_def)
  moreover have "val_from (length h) (snd (parse h (JsonArr js)))"
    using p e(1) by (simp add: val_from_def)
  ultimately show ?case by blast
next
  case (6 h ps)
  obtain h1 qs where p: "parse_props h ps = (h1, qs)" by (cases "parse_props h ps")
  with 6 obtain ext where e: "h1 = h @ ext" "list_all (obj_from (length h)) ext"
    "list_all (val_from (length h)) (map snd qs)" by auto
  have "fst (parse h (JsonObj ps)) = h @ (ext @ [JObject qs])"
    using p e(1) by simp
  moreover have "list_all (obj_from (length h)) (ext @ [JObject qs])"
    using e(2,3) by (simp add: obj_from_def obj_vals_def)
  moreover have "val_from (length h) (snd (parse h (JsonObj ps)))"
    using p e(1) by (simp add: val_from_def)
  ultimately show ?case by blast
next
  case (8 h p ps)
  obtain h1 v where a: "parse h (snd p) = (h1, v)" by (cases "parse h (snd p)")
  obtain h2 qs where b: "parse_props h1 ps = (h2, qs)" by (cases "parse_props h1 ps")
  from 8(1) a obtain e1 where e1: "h1 = h @ e1" "list_all (obj_from (length h)) e1"
    "val_from (length h) v" by auto
  from 8(2) [OF a [symmetric]] b obtain e2 where e2: "h2 = h1 @ e2"
    "list_all (obj_from (length h1)) e2" "list_all (val_from (length h1)) (map snd qs)" by auto
  have le: "length h \<le> length h1" using e1(1) by simp
  have "fst (parse_props h (p # ps)) = h @ (e1 @ e2)"
    using a b e1(1) e2(1) by simp
  moreover have "list_all (obj_from (length h)) (e1 @ e2)"
    using e1(2) objs_from_mono [OF e2(2) le] by simp
  moreover have "list_all (val_from (length h)) (map snd (snd (parse_props h (p # ps))))"
    using a b e1(3) vals_from_mono [OF e2(3) le] by simp
  ultimately show ?case by blast
next
  case (10 h j js)
  obtain h1 v where a: "parse h j = (h1, v)" by (cases "parse h j")
  obtain h2 vs where b: "parse_elems h1 js = (h2, vs)" by (cases "parse_elems h1 js")
  from 10(1) a obtain e1 where e1: "h1 = h @ e1" "list_all (obj_from (length h)) e1"
    "val_from (length h) v" by auto
  from 10(2) [OF a [symmetric]] b obtain e2 where e2: "h2 = h1 @ e2"
    "list_all (obj_from (length h1)) e2" "list_all (val_from (length h1)) vs" by auto
  have le: "length h \<le> length h1" using e1(1) by simp
  have "fst (parse_elems h (j # js)) = h @ (e1 @ e2)"
    using a b e1(1) e2(1) by simp
  moreover have "list_all (obj_from (length h)) (e1 @ e2)"
    using e1(2) objs_from_mono [OF e2(2) le] by simp
  moreover have "list_all (val_from (length h)) (snd (parse_elems h (j # js)))"
    using a b e1(3) vals_from_mono [OF e2(3) le] by simp
  ultimately show ?case by blast
qed (simp_all add: val_from_def)






lemma val_below_mono: "val_below n v \<Longrightarrow> n \<le> m \<Longrightarrow> val_below m v"
  by (auto simp: val_below_def split: jsval.splits)

lemma obj_below_mono: "obj_below n obj \<Longrightarrow> n \<le> m \<Longrightarrow> obj_below m obj"
  by (auto simp: obj_below_def list_all_iff intro: val_below_mono)


lemma closed_below_snoc:
  assumes "closed_below (length h) h" "obj_below (length h) obj"
  shows "closed_below (Suc (length h)) (h @ obj # ext)"
proof -
  from assms(1) have "list_all (obj_below (Suc (length h))) h"
    by (auto simp: closed_below_def list_all_iff intro: obj_below_mono)
  moreover from assms(2) have "obj_below (Suc (length h)) obj"
    by (rule obj_below_mono) simp
  ultimately show ?thesis
    by (simp add: closed_below_def)
qed




subsection \<open>What the operations return\<close>




lemma vals_update:
  "list_all P (map snd ps) \<Longrightarrow> P v \<Longrightarrow> list_all P (map snd (AList.update k v ps))"
  by (induction ps) auto

lemma vals_spread:
  "list_all P (map snd a) \<Longrightarrow> list_all P (map snd b) \<Longrightarrow> list_all P (map snd (spread a b))"
  unfolding spread_def
  by (induction b arbitrary: a) (auto simp: vals_update)

lemma row_ident_below:
  assumes "list_all (val_below n) (map snd row)"
  shows "val_below n (row_ident e row)"
proof (cases "map_of row ''id''")
  case None
  then show ?thesis by (simp add: row_ident_def get_prop_def nullish_def val_below_def)
next
  case (Some v)
  then have "(''id'', v) \<in> set row" by (rule map_of_SomeD)
  with assms have "val_below n v" by (auto simp: list_all_iff)
  with Some show ?thesis by (auto simp: row_ident_def get_prop_def val_below_def)
qed



lemma own_props_below:
  assumes "heap_ok s" "a < length (mem s)"
  shows "list_all (val_below (length (mem s))) (map snd (own_props (mem s) a))"
proof -
  from assms have "obj_below (length (mem s)) (mem s ! a)"
    by (simp add: heap_ok_def closed_below_def list_all_length)
  with assms(2) show ?thesis
    by (auto simp: own_props_def heap_get_def obj_below_def obj_vals_def split: jsobj.splits)
qed




subsection \<open>References stay inside the heap\<close>

text \<open>
  That every reference leads into the heap holds for the empty table and is kept by
  every operation, so it holds in every state that a program can reach.
\<close>

lemma vals_below_mono: "list_all (val_below n) vs \<Longrightarrow> n \<le> m \<Longrightarrow> list_all (val_below m) vs"
  by (auto simp: list_all_iff intro: val_below_mono)

lemma objs_below_mono: "list_all (obj_below n) hs \<Longrightarrow> n \<le> m \<Longrightarrow> list_all (obj_below m) hs"
  by (auto simp: list_all_iff intro: obj_below_mono)

lemma parse_closed:
  "\<exists>ext. fst (parse h j) = h @ ext \<and> list_all (obj_below (length h + length ext)) ext
         \<and> val_below (length h + length ext) (snd (parse h j))"
  "\<exists>ext. fst (parse_props h ps) = h @ ext \<and> list_all (obj_below (length h + length ext)) ext
         \<and> list_all (val_below (length h + length ext)) (map snd (snd (parse_props h ps)))"
  "\<exists>ext. fst (parse_elems h js) = h @ ext \<and> list_all (obj_below (length h + length ext)) ext
         \<and> list_all (val_below (length h + length ext)) (snd (parse_elems h js))"
proof (induction h j and h ps and h js rule: parse_parse_props_parse_elems.induct)
  case (5 h js)
  obtain h1 vs where p: "parse_elems h js = (h1, vs)" by (cases "parse_elems h js")
  with 5 obtain ext where e: "h1 = h @ ext" "list_all (obj_below (length h + length ext)) ext"
    "list_all (val_below (length h + length ext)) vs" by auto
  let ?ext = "ext @ [JArray vs]"
  have "fst (parse h (JsonArr js)) = h @ ?ext"
    using p e(1) by simp
  moreover have "list_all (obj_below (length h + length ?ext)) ?ext"
    using objs_below_mono [OF e(2), of "length h + length ?ext"]
      vals_below_mono [OF e(3), of "length h + length ?ext"]
    by (simp add: obj_below_def obj_vals_def)
  moreover have "val_below (length h + length ?ext) (snd (parse h (JsonArr js)))"
    using p e(1) by (simp add: val_below_def)
  ultimately show ?case by blast
next
  case (6 h ps)
  obtain h1 qs where p: "parse_props h ps = (h1, qs)" by (cases "parse_props h ps")
  with 6 obtain ext where e: "h1 = h @ ext" "list_all (obj_below (length h + length ext)) ext"
    "list_all (val_below (length h + length ext)) (map snd qs)" by auto
  let ?ext = "ext @ [JObject qs]"
  have "fst (parse h (JsonObj ps)) = h @ ?ext"
    using p e(1) by simp
  moreover have "list_all (obj_below (length h + length ?ext)) ?ext"
    using objs_below_mono [OF e(2), of "length h + length ?ext"]
      vals_below_mono [OF e(3), of "length h + length ?ext"]
    by (simp add: obj_below_def obj_vals_def)
  moreover have "val_below (length h + length ?ext) (snd (parse h (JsonObj ps)))"
    using p e(1) by (simp add: val_below_def)
  ultimately show ?case by blast
next
  case (8 h p ps)
  obtain h1 v where a: "parse h (snd p) = (h1, v)" by (cases "parse h (snd p)")
  obtain h2 qs where b: "parse_props h1 ps = (h2, qs)" by (cases "parse_props h1 ps")
  from 8(1) a obtain e1 where e1: "h1 = h @ e1" "list_all (obj_below (length h + length e1)) e1"
    "val_below (length h + length e1) v" by auto
  from 8(2) [OF a [symmetric]] b obtain e2 where e2: "h2 = h1 @ e2"
    "list_all (obj_below (length h1 + length e2)) e2"
    "list_all (val_below (length h1 + length e2)) (map snd qs)" by auto
  let ?n = "length h + length (e1 @ e2)"
  have n: "length h1 + length e2 = ?n" "length h + length e1 \<le> ?n"
    using e1(1) by simp_all
  have "fst (parse_props h (p # ps)) = h @ (e1 @ e2)"
    using a b e1(1) e2(1) by simp
  moreover have "list_all (obj_below ?n) (e1 @ e2)"
    using objs_below_mono [OF e1(2) n(2)] e2(2) n(1) by simp
  moreover have "list_all (val_below ?n) (map snd (snd (parse_props h (p # ps))))"
    using a b val_below_mono [OF e1(3) n(2)] e2(3) n(1) by simp
  ultimately show ?case by blast
next
  case (10 h j js)
  obtain h1 v where a: "parse h j = (h1, v)" by (cases "parse h j")
  obtain h2 vs where b: "parse_elems h1 js = (h2, vs)" by (cases "parse_elems h1 js")
  from 10(1) a obtain e1 where e1: "h1 = h @ e1" "list_all (obj_below (length h + length e1)) e1"
    "val_below (length h + length e1) v" by auto
  from 10(2) [OF a [symmetric]] b obtain e2 where e2: "h2 = h1 @ e2"
    "list_all (obj_below (length h1 + length e2)) e2"
    "list_all (val_below (length h1 + length e2)) vs" by auto
  let ?n = "length h + length (e1 @ e2)"
  have n: "length h1 + length e2 = ?n" "length h + length e1 \<le> ?n"
    using e1(1) by simp_all
  have "fst (parse_elems h (j # js)) = h @ (e1 @ e2)"
    using a b e1(1) e2(1) by simp
  moreover have "list_all (obj_below ?n) (e1 @ e2)"
    using objs_below_mono [OF e1(2) n(2)] e2(2) n(1) by simp
  moreover have "list_all (val_below ?n) (snd (parse_elems h (j # js)))"
    using a b val_below_mono [OF e1(3) n(2)] e2(3) n(1) by simp
  ultimately show ?case by blast
qed (simp_all add: val_below_def)

lemma closed_all: "closed_below (length h) h = list_all (obj_below (length h)) h"
  by (simp add: closed_below_def)

lemma deepClone_closed:
  assumes "closed_below (length h) h" "deepClone h v = Inr (h1, r)"
  shows "closed_below (length h1) h1 \<and> length h \<le> length h1"
proof -
  from assms(2) obtain j where "parse h j = (h1, r)"
    by (auto simp: deepClone_def split: sum.splits option.splits)
  with parse_closed(1) [of h j] obtain ext where e: "h1 = h @ ext"
    "list_all (obj_below (length h + length ext)) ext" by auto
  from assms(1) have "list_all (obj_below (length h + length ext)) h"
    unfolding closed_all by (rule objs_below_mono) simp
  with e show ?thesis by (simp add: closed_below_def)
qed

lemma clone_all_closed:
  "closed_below (length h) h \<Longrightarrow> clone_all h as = Inr (h1, vs)
   \<Longrightarrow> closed_below (length h1) h1 \<and> length h \<le> length h1"
proof (induction as arbitrary: h h1 vs)
  case Nil
  then show ?case by simp
next
  case (Cons a as)
  from Cons.prems(2) obtain h' v vs' where c: "deepClone h (JRef a) = Inr (h', v)"
    "clone_all h' as = Inr (h1, vs')"
    by (auto split: sum.splits prod.splits)
  from deepClone_closed [OF Cons.prems(1) c(1)] have 1: "closed_below (length h') h'" "length h \<le> length h'"
    by simp_all
  from Cons.IH [OF 1(1) c(2)] 1(2) show ?case by simp
qed

lemma rows_below_mono:
  "list_all (\<lambda>r. snd r < (n :: nat)) rs \<Longrightarrow> n \<le> m \<Longrightarrow> list_all (\<lambda>r. snd r < m) rs"
  by (induction rs) auto

lemma heap_ok_grow:
  assumes "heap_ok s" "closed_below (length h1) h1" "length (mem s) \<le> length h1"
  shows "heap_ok (s\<lparr>mem := h1\<rparr>)"
  using assms rows_below_mono [of "length (mem s)" "rows s" "length h1"]
  by (simp add: heap_ok_def)

lemma heap_ok_get: "heap_ok s \<Longrightarrow> heap_ok (fst (get s k))"
  by (auto simp: get_def heap_ok_def [of s] split: option.splits sum.splits prod.splits
           dest!: deepClone_closed [rotated] intro!: heap_ok_grow)

lemma heap_ok_query: "heap_ok s \<Longrightarrow> heap_ok (fst (query cg s opts))"
proof (cases "clone_all (mem s) (map snd (rows s))")
  case (Inl err)
  assume "heap_ok s"
  with Inl show ?thesis by (simp add: query_clone_Inl)
next
  case (Inr p)
  assume ok: "heap_ok s"
  obtain h1 vs where p: "p = (h1, vs)" by (cases p)
  from ok have "closed_below (length (mem s)) (mem s)" by (simp add: heap_ok_def)
  from clone_all_closed [OF this Inr [unfolded p]] have "heap_ok (s\<lparr>mem := h1\<rparr>)"
    using ok by (intro heap_ok_grow) simp_all
  moreover have "fst (query cg s opts) = s\<lparr>mem := h1\<rparr>"
    using Inr p by (simp add: query_def Let_def split: sum.splits)
  ultimately show ?thesis by simp
qed

lemma heap_ok_stored:
  assumes "heap_ok s" "obj_below (length (mem s)) obj"
  shows "heap_ok (fst (case deepClone (mem s @ [obj]) (JRef (length (mem s))) of
            Inl err \<Rightarrow> (\<lparr>mem = mem s @ [obj], rows = AList.update k (length (mem s)) (rows s)\<rparr>, Inl err)
          | Inr (h, v) \<Rightarrow> (\<lparr>mem = h, rows = AList.update k (length (mem s)) (rows s)\<rparr>, Inr v)))"
proof -
  let ?n = "length (mem s)"
  let ?h1 = "mem s @ [obj]"
  have c: "closed_below (length ?h1) ?h1"
    using closed_below_snoc [of "mem s" obj "[]"] assms by (simp add: heap_ok_def)
  have "list_all (\<lambda>r. snd r < Suc ?n) (rows s)"
    using assms(1) by (auto simp: heap_ok_def list_all_iff)
  then have r: "list_all (\<lambda>r. snd r < Suc ?n) (AList.update k ?n (rows s))"
    by (rule rows_ok_update) simp
  show ?thesis
  proof (cases "deepClone ?h1 (JRef ?n)")
    case (Inl err)
    with c r show ?thesis by (simp add: heap_ok_def)
  next
    case (Inr p)
    obtain h v where p: "p = (h, v)" by (cases p)
    from deepClone_closed [OF c Inr [unfolded p]] have "closed_below (length h) h" "Suc ?n \<le> length h"
      by simp_all
    with rows_below_mono [OF r, of "length h"] Inr p show ?thesis
      by (simp add: heap_ok_def)
  qed
qed

lemma heap_ok_insert:
  assumes "heap_ok s" "list_all (val_below (length (mem s))) (map snd row)"
  shows "heap_ok (fst (insert_row s e row))"
proof -
  have "obj_below (length (mem s)) (JObject (AList.update ''id'' (row_ident e row) row))"
    using assms(2) row_ident_below [OF assms(2)]
    by (simp add: obj_below_def obj_vals_def vals_update)
  from heap_ok_stored [OF assms(1) this] show ?thesis
    by (simp add: insert_row_ident)
qed

lemma update_present:
  "map_of (rows s) k = Some a \<Longrightarrow>
   update s k patch =
     (case deepClone (mem s @ [JObject (spread (own_props (mem s) a) patch)]) (JRef (length (mem s))) of
        Inl err \<Rightarrow> (\<lparr>mem = mem s @ [JObject (spread (own_props (mem s) a) patch)],
                     rows = AList.update k (length (mem s)) (rows s)\<rparr>, Inl err)
      | Inr (h, v) \<Rightarrow> (\<lparr>mem = h, rows = AList.update k (length (mem s)) (rows s)\<rparr>, Inr v))"
  by (simp add: update_def Let_def split: sum.splits prod.splits)

lemma heap_ok_update:
  assumes "heap_ok s" "list_all (val_below (length (mem s))) (map snd patch)"
  shows "heap_ok (fst (update s k patch))"
proof (cases "map_of (rows s) k")
  case None
  with assms(1) show ?thesis by (simp add: update_def)
next
  case (Some a)
  then have "(k, a) \<in> set (rows s)" by (rule map_of_SomeD)
  with assms(1) have "a < length (mem s)"
    by (auto simp: heap_ok_def list_all_iff)
  then have "list_all (val_below (length (mem s))) (map snd (own_props (mem s) a))"
    using assms(1) by (intro own_props_below)
  then have "obj_below (length (mem s)) (JObject (spread (own_props (mem s) a) patch))"
    using assms(2) by (simp add: obj_below_def obj_vals_def vals_spread)
  from heap_ok_stored [OF assms(1) this] show ?thesis
    by (simp add: update_present [OF Some])
qed

lemma mem_grows: "length (mem s) \<le> length (mem (exec cg s x))"
proof (cases x)
  case (Insert e row)
  then show ?thesis using insert_state [of s e row] by auto
next
  case (Get k)
  then show ?thesis using get_state [of s k] by auto
next
  case (Update k patch)
  then show ?thesis
    using update_state [of s k _ patch] by (cases "map_of (rows s) k") (auto simp: update_def)
next
  case (Delete k)
  then show ?thesis by (simp add: delete_def)
next
  case (Query opts)
  then show ?thesis using query_state [of cg s opts] by auto
next
  case Clear
  then show ?thesis by (simp add: clear_def)
qed

lemma heap_ok_exec:
  assumes "heap_ok s" "args_below (length (mem s)) x"
  shows "heap_ok (exec cg s x)"
proof (cases x)
  case (Insert e row)
  with assms show ?thesis by (simp add: heap_ok_insert)
next
  case (Get k)
  with assms show ?thesis by (simp add: heap_ok_get)
next
  case (Update k patch)
  with assms show ?thesis by (simp add: heap_ok_update)
next
  case (Delete k)
  with assms show ?thesis
    by (simp add: delete_def heap_ok_def rows_ok_delete)
next
  case (Query opts)
  with assms show ?thesis by (simp add: heap_ok_query)
next
  case Clear
  with assms show ?thesis by (simp add: clear_def heap_ok_def)
qed

lemma args_below_mono: "args_below n x \<Longrightarrow> n \<le> m \<Longrightarrow> args_below m x"
  by (cases x) (auto intro: vals_below_mono)

lemma heap_ok_run:
  "heap_ok s \<Longrightarrow> list_all (args_below (length (mem s))) ops \<Longrightarrow> heap_ok (foldl (exec cg) s ops)"
proof (induction ops arbitrary: s)
  case Nil
  then show ?case by simp
next
  case (Cons x ops)
  from Cons.prems have 1: "heap_ok (exec cg s x)"
    by (simp add: heap_ok_exec)
  have "list_all (args_below (length (mem (exec cg s x)))) ops"
    using Cons.prems(2) mem_grows [of s cg x]
    by (auto simp: list_all_iff intro: args_below_mono)
  with 1 Cons.IH show ?case by simp
qed

lemma heap_ok_empty: "heap_ok empty_table"
  by (simp add: heap_ok_def closed_below_def empty_table_def)

subsection \<open>Copies do not alias the table\<close>



subsection \<open>insert, then get\<close>







lemma parse_repI: "parse h j = (h', v) \<Longrightarrow> rep h' v j"
  by (metis parse_rep(1) fst_conv snd_conv)






subsection \<open>insert on a key that is there already\<close>

lemma row_ident_explicit:
  "map_of row ''id'' = Some k \<Longrightarrow> \<not> nullish k \<Longrightarrow> row_ident e row = k"
  by (simp add: row_ident_def get_prop_def)

lemma deepClone_keeps:
  "deepClone h v = Inr (h1, r) \<Longrightarrow> a < length h \<Longrightarrow> heap_get h1 a = heap_get h a"
  by (auto dest!: deepClone_prefix simp: heap_get_append)

lemma insert_duplicate_eval:
  "snd (insert_row (ages e) e [(''id'', JStr ''a''), (''age'', JNum 99)]) = Inr (JRef 7)
   \<and> get_field (mem (fst (insert_row (ages e) e [(''id'', JStr ''a''), (''age'', JNum 99)])))
        (JRef 7) ''age'' = JNum 99
   \<and> rows (fst (insert_row (ages e) e [(''id'', JStr ''a''), (''age'', JNum 99)]))
        = [(JStr ''a'', 6), (JStr ''b'', 2), (JStr ''c'', 4)]"
  by code_simp

lemma ser_no_SyntaxError:
  "ser h st v \<noteq> Inl SyntaxError"
  "ser_props h st ps \<noteq> Inl SyntaxError"
  "ser_elems h st vs \<noteq> Inl SyntaxError"
  by (induction h st v and h st ps and h st vs rule: ser_ser_props_ser_elems.induct)
     (auto split: sum.splits option.splits jsobj.splits)

lemma ser_error: "ser h st v = Inl err \<Longrightarrow> err = TypeError"
  using ser_no_SyntaxError(1) [of h st v] by (cases err) auto

lemma ser_object_defined:
  "a < length h \<Longrightarrow> h ! a = JObject ps \<Longrightarrow> ser h st (JRef a) \<noteq> Inr None"
  by (auto split: sum.splits)

lemma stored_clone:
  "(case deepClone (h @ [JObject ps]) (JRef (length h)) of
      Inl err \<Rightarrow> err = TypeError \<and> ser (h @ [JObject ps]) [] (JRef (length h)) = Inl TypeError
    | Inr (h', v) \<Rightarrow>
        val_from (Suc (length h)) v
        \<and> list_all (obj_from (Suc (length h))) (drop (Suc (length h)) h')
        \<and> (\<exists>j. ser (h @ [JObject ps]) [] (JRef (length h)) = Inr (Some j) \<and> rep h' v j))"
proof (cases "ser (h @ [JObject ps]) [] (JRef (length h))")
  case (Inl err)
  with ser_error [OF Inl] show ?thesis
    by (simp add: deepClone_def del: ser.simps)
next
  case (Inr r)
  have "r \<noteq> None"
    using ser_object_defined [of "length h" "h @ [JObject ps]" ps "[]"] Inr by auto
  then obtain j where j: "r = Some j" by auto
  obtain h' v where p: "parse (h @ [JObject ps]) j = (h', v)"
    by (cases "parse (h @ [JObject ps]) j")
  from parse_fresh(1) [of "h @ [JObject ps]" j] p obtain ext where
    e: "h' = (h @ [JObject ps]) @ ext" "list_all (obj_from (Suc (length h))) ext"
       "val_from (Suc (length h)) v"
    by auto
  from p have "rep h' v j" by (rule parse_repI)
  with Inr j p e show ?thesis
    by (simp add: deepClone_def del: ser.simps)
qed

text \<open>
  C2, as stated, fails: in the scenario the key \<^verbatim>\<open>"a"\<close> is in the table, and
  \<^verbatim>\<open>insert({id: "a", age: 99})\<close> returns a record instead of failing.
\<close>

theorem insert_duplicate_counterexample:
  "map_of (rows (ages sample_env)) (JStr ''a'') = Some 0
   \<and> snd (insert_row (ages sample_env) sample_env [(''id'', JStr ''a''), (''age'', JNum 99)])
       = Inr (JRef 7)"
  using insert_duplicate_eval [of sample_env] by (simp add: ages_rows)

text \<open>
  C2, amended. For every state and every record whose explicit identifier (not
  \<^verbatim>\<open>null\<close> or \<^verbatim>\<open>undefined\<close>) is a key of the table already, \<^verbatim>\<open>insert\<close> raises no
  duplicate-key error: it overwrites. The keys and their order stay as they are, and
  the key now leads to a new object with the properties of the record. The call then
  returns what \<^verbatim>\<open>deepClone\<close> yields for that object: a \<^verbatim>\<open>TypeError\<close> when
  \<^verbatim>\<open>JSON.stringify\<close> throws on it (a record with a cycle), and otherwise a value made
  of newly allocated objects only, whose content is the JSON tree that
  \<^verbatim>\<open>JSON.stringify\<close> gives for the new object.
\<close>

theorem insert_overwrites:
  assumes "map_of (rows s) k = Some a" "map_of row ''id'' = Some k" "\<not> nullish k"
  shows "map fst (rows (fst (insert_row s e row))) = map fst (rows s)
       \<and> map_of (rows (fst (insert_row s e row))) = (map_of (rows s))(k \<mapsto> length (mem s))
       \<and> heap_get (mem (fst (insert_row s e row))) (length (mem s)) = Some (JObject row)
       \<and> (case snd (insert_row s e row) of
            Inl err \<Rightarrow>
              err = TypeError
              \<and> ser (mem s @ [JObject row]) [] (JRef (length (mem s))) = Inl TypeError
          | Inr v \<Rightarrow>
              val_from (Suc (length (mem s))) v
              \<and> list_all (obj_from (Suc (length (mem s))))
                   (drop (Suc (length (mem s))) (mem (fst (insert_row s e row))))
              \<and> (\<exists>j. ser (mem s @ [JObject row]) [] (JRef (length (mem s))) = Inr (Some j)
                      \<and> rep (mem (fst (insert_row s e row))) v j))"
proof -
  have k: "row_ident e row = k"
    using assms(2,3) by (rule row_ident_explicit)
  have row: "AList.update ''id'' k row = row"
    using assms(2) by (rule AList.update_triv)
  obtain ext where st: "fst (insert_row s e row) =
      \<lparr>mem = mem s @ JObject row # ext, rows = AList.update k (length (mem s)) (rows s)\<rparr>"
    using insert_state [of s e row] by (auto simp: k row)
  have "k \<in> set (map fst (rows s))"
    using assms(1) by (metis map_of_eq_None_iff option.distinct(1) set_map)
  then have 1: "map fst (rows (fst (insert_row s e row))) = map fst (rows s)"
    by (simp add: st AList.update_keys)
  have 2: "map_of (rows (fst (insert_row s e row))) = (map_of (rows s))(k \<mapsto> length (mem s))"
    by (simp add: st AList.update_conv')
  have 3: "heap_get (mem (fst (insert_row s e row))) (length (mem s)) = Some (JObject row)"
    by (simp add: st heap_get_new)
  have 4: "(case snd (insert_row s e row) of
            Inl err \<Rightarrow>
              err = TypeError
              \<and> ser (mem s @ [JObject row]) [] (JRef (length (mem s))) = Inl TypeError
          | Inr v \<Rightarrow>
              val_from (Suc (length (mem s))) v
              \<and> list_all (obj_from (Suc (length (mem s))))
                   (drop (Suc (length (mem s))) (mem (fst (insert_row s e row))))
              \<and> (\<exists>j. ser (mem s @ [JObject row]) [] (JRef (length (mem s))) = Inr (Some j)
                      \<and> rep (mem (fst (insert_row s e row))) v j))"
    using stored_clone [of "mem s" row]
    by (auto simp: insert_row_ident k row simp del: ser.simps split: sum.splits prod.splits)
  from 1 2 3 4 show ?thesis by blast
qed

theorem insert_overwrites_witness:
  "map_of (rows (ages sample_env)) (JStr ''a'') = Some 0
   \<and> map_of [(''id'', JStr ''a''), (''age'', JNum 99)] ''id'' = Some (JStr ''a'')
   \<and> \<not> nullish (JStr ''a'')
   \<and> map fst (rows (fst (insert_row (ages sample_env) sample_env
         [(''id'', JStr ''a''), (''age'', JNum 99)]))) = map fst (rows (ages sample_env))
   \<and> heap_get (mem (fst (insert_row (ages sample_env) sample_env
         [(''id'', JStr ''a''), (''age'', JNum 99)]))) (length (mem (ages sample_env)))
       = Some (JObject [(''id'', JStr ''a''), (''age'', JNum 99)])"
proof -
  have 1: "map_of (rows (ages sample_env)) (JStr ''a'') = Some 0"
    by (simp add: ages_rows)
  have 2: "map_of [(''id'', JStr ''a''), (''age'', JNum 99)] ''id'' = Some (JStr ''a'')"
    by simp
  have 3: "\<not> nullish (JStr ''a'')"
    by (simp add: nullish_def)
  from 1 2 3 insert_overwrites [OF 1 2 3, of sample_env] show ?thesis by blast
qed

end
